theory Spec2Isabelle
  imports Main "HOL-Library.Word" "HOL-Library.AList"
begin

unbundle bit_operations_syntax

section \<open>Byte strings, errors and the hashing library\<close>

text \<open>
  Python \<open>bytes\<close> are lists of 8-bit words; Python integers are unbounded and modelled
  as \<open>int\<close>.  Every exception that the modelled code can raise is a value of
  \<open>py_error\<close>; \<open>ScriptError\<close> carries the fixed part of its message.
\<close>

type_synonym byte = "8 word"
type_synonym bytes = "byte list"

datatype py_error =
    ScriptError string
  | IndexError
  | KeyError
  | ValueError
  | StructError

text \<open>
  The digests come from Python's \<open>hashlib\<close> and \<open>hmac\<close> modules, which are not part
  of the repository.  They are parameters of the model: a record of the three functions
  the code calls.  A theorem that does not name a record holds for all of them.
\<close>

record hashlib =
  sha256_digest :: "bytes \<Rightarrow> bytes"
  ripemd160_digest :: "bytes \<Rightarrow> bytes"
  hmac_sha256 :: "bytes \<Rightarrow> bytes \<Rightarrow> bytes"

definition sha256 :: "hashlib \<Rightarrow> bytes \<Rightarrow> bytes" where
  "sha256 L data = sha256_digest L data"

definition hash256 :: "hashlib \<Rightarrow> bytes \<Rightarrow> bytes" where
  "hash256 L data = sha256 L (sha256 L data)"

definition hash160 :: "hashlib \<Rightarrow> bytes \<Rightarrow> bytes" where
  "hash160 L data = ripemd160_digest L (sha256 L data)"

text \<open>
  A record that returns one fixed digest for every input.  It takes the place of the
  library where a statement is evaluated on a concrete input and only the length or
  the leading digits of a digest matter.
\<close>

definition constant_hashlib :: "bytes \<Rightarrow> hashlib" where
  "constant_hashlib d = \<lparr>sha256_digest = (\<lambda>_. d), ripemd160_digest = (\<lambda>_. take 20 d),
                          hmac_sha256 = (\<lambda>_ _. d)\<rparr>"

section \<open>The signature pair of the script engine and of the wallet\<close>

definition sign_message :: "hashlib \<Rightarrow> bytes \<Rightarrow> bytes \<Rightarrow> bytes" where
  "sign_message L private_key message = hmac_sha256 L private_key message"

text \<open>
  \<open>verify_signature\<close> computes an HMAC of the message under the public key into the
  local \<open>expected\<close> and never reads it again; the returned value is the length test.
  The binding is kept in the model.
\<close>

definition verify_signature :: "hashlib \<Rightarrow> bytes \<Rightarrow> bytes \<Rightarrow> bytes \<Rightarrow> bool" where
  "verify_signature L public_key message signature =
     (let expected = hmac_sha256 L public_key (message @ map (of_nat \<circ> of_char) ''verify'')
      in length signature = 32 \<and> length public_key = 32)"

text \<open>\<open>Wallet.sign\<close> and \<open>Wallet.verify_with_pubkey\<close> of the ledger module.\<close>

definition wallet_sign :: "hashlib \<Rightarrow> bytes \<Rightarrow> bytes \<Rightarrow> bytes" where
  "wallet_sign L private_key message = hmac_sha256 L private_key message"

definition verify_with_pubkey :: "bytes \<Rightarrow> bytes \<Rightarrow> bytes \<Rightarrow> bool" where
  "verify_with_pubkey public_key_bytes message signature = (length signature = 32)"

section \<open>Scripts and their wire format\<close>

text \<open>
  A script is a Python list whose items are either an \<open>int\<close> (an opcode) or a
  \<open>bytes\<close> object (a push payload).
\<close>

datatype item = Op int | Push bytes

abbreviation (input) OP_0 :: int where "OP_0 \<equiv> 0x00"
abbreviation (input) OP_PUSHDATA1 :: int where "OP_PUSHDATA1 \<equiv> 0x4c"
abbreviation (input) OP_PUSHDATA2 :: int where "OP_PUSHDATA2 \<equiv> 0x4d"
abbreviation (input) OP_1 :: int where "OP_1 \<equiv> 0x51"
abbreviation (input) OP_16 :: int where "OP_16 \<equiv> 0x60"
abbreviation (input) OP_NOP :: int where "OP_NOP \<equiv> 0x61"
abbreviation (input) OP_IF :: int where "OP_IF \<equiv> 0x63"
abbreviation (input) OP_ELSE :: int where "OP_ELSE \<equiv> 0x67"
abbreviation (input) OP_ENDIF :: int where "OP_ENDIF \<equiv> 0x68"
abbreviation (input) OP_VERIFY :: int where "OP_VERIFY \<equiv> 0x69"
abbreviation (input) OP_RETURN :: int where "OP_RETURN \<equiv> 0x6a"
abbreviation (input) OP_2DUP :: int where "OP_2DUP \<equiv> 0x6e"
abbreviation (input) OP_3DUP :: int where "OP_3DUP \<equiv> 0x6f"
abbreviation (input) OP_DROP :: int where "OP_DROP \<equiv> 0x75"
abbreviation (input) OP_DUP :: int where "OP_DUP \<equiv> 0x76"
abbreviation (input) OP_OVER :: int where "OP_OVER \<equiv> 0x78"
abbreviation (input) OP_ROT :: int where "OP_ROT \<equiv> 0x7b"
abbreviation (input) OP_SWAP :: int where "OP_SWAP \<equiv> 0x7c"
abbreviation (input) OP_EQUAL :: int where "OP_EQUAL \<equiv> 0x87"
abbreviation (input) OP_EQUALVERIFY :: int where "OP_EQUALVERIFY \<equiv> 0x88"
abbreviation (input) OP_1ADD :: int where "OP_1ADD \<equiv> 0x8b"
abbreviation (input) OP_1SUB :: int where "OP_1SUB \<equiv> 0x8c"
abbreviation (input) OP_ADD :: int where "OP_ADD \<equiv> 0x93"
abbreviation (input) OP_SUB :: int where "OP_SUB \<equiv> 0x94"
abbreviation (input) OP_SHA256 :: int where "OP_SHA256 \<equiv> 0xa8"
abbreviation (input) OP_HASH160 :: int where "OP_HASH160 \<equiv> 0xa9"
abbreviation (input) OP_HASH256 :: int where "OP_HASH256 \<equiv> 0xaa"
abbreviation (input) OP_CHECKSIG :: int where "OP_CHECKSIG \<equiv> 0xac"
abbreviation (input) OP_CHECKSIGVERIFY :: int where "OP_CHECKSIGVERIFY \<equiv> 0xad"
abbreviation (input) OP_CHECKMULTISIG :: int where "OP_CHECKMULTISIG \<equiv> 0xae"
abbreviation (input) OP_NOP1 :: int where "OP_NOP1 \<equiv> 0xb0"
abbreviation (input) OP_CHECKLOCKTIMEVERIFY :: int where "OP_CHECKLOCKTIMEVERIFY \<equiv> 0xb1"
abbreviation (input) OP_CHECKSEQUENCEVERIFY :: int where "OP_CHECKSEQUENCEVERIFY \<equiv> 0xb2"
abbreviation (input) OP_NOP4 :: int where "OP_NOP4 \<equiv> 0xb3"
abbreviation (input) OP_NOP5 :: int where "OP_NOP5 \<equiv> 0xb4"
abbreviation (input) OP_NOP6 :: int where "OP_NOP6 \<equiv> 0xb5"
abbreviation (input) OP_NOP7 :: int where "OP_NOP7 \<equiv> 0xb6"
abbreviation (input) OP_NOP8 :: int where "OP_NOP8 \<equiv> 0xb7"
abbreviation (input) OP_NOP9 :: int where "OP_NOP9 \<equiv> 0xb8"
abbreviation (input) OP_NOP10 :: int where "OP_NOP10 \<equiv> 0xb9"

text \<open>
  \<open>bytes([v])\<close> raises \<open>ValueError\<close> unless \<open>0 \<le> v < 256\<close>;
  \<open>struct.pack('<H', v)\<close> raises \<open>struct.error\<close> unless \<open>0 \<le> v < 65536\<close>.
\<close>

definition bytes_of_int :: "int \<Rightarrow> py_error + bytes" where
  "bytes_of_int v = (if 0 \<le> v \<and> v < 256 then Inr [word_of_int v] else Inl ValueError)"

definition pack_H :: "int \<Rightarrow> py_error + bytes" where
  "pack_H v = (if 0 \<le> v \<and> v < 65536
                then Inr [word_of_int (v mod 256), word_of_int (v div 256)]
                else Inl StructError)"

text \<open>One iteration of the loop of \<open>Script.serialize\<close>: the chunks appended for one item.\<close>

definition serialize_item :: "item \<Rightarrow> py_error + bytes" where
  "serialize_item op =
     (case op of
        Push payload \<Rightarrow>
          (let len = int (length payload) in
           if len < 76 then
             (case bytes_of_int len of Inl e \<Rightarrow> Inl e | Inr l1 \<Rightarrow> Inr (l1 @ payload))
           else if len \<le> 0xff then Inr ([word_of_int OP_PUSHDATA1, word_of_int len] @ payload)
           else
             (case pack_H len of Inl e \<Rightarrow> Inl e
              | Inr l2 \<Rightarrow> Inr (([word_of_int OP_PUSHDATA2] @ l2) @ payload)))
      | Op v \<Rightarrow> bytes_of_int v)"

fun serialize :: "item list \<Rightarrow> py_error + bytes" where
  "serialize [] = Inr []"
| "serialize (op # ops) =
     (case serialize_item op of
        Inl e \<Rightarrow> Inl e
      | Inr chunk \<Rightarrow> (case serialize ops of Inl e \<Rightarrow> Inl e | Inr rest \<Rightarrow> Inr (chunk @ rest)))"

text \<open>
  \<open>Script.deserialize\<close>.  The loop variable \<open>i\<close> only moves forward, so the model
  recurses on the unread suffix \<open>data[i:]\<close> and carries the list \<open>opcodes\<close>.  A slice
  past the end is shorter than asked for and raises nothing; \<open>data[i]\<close> past the end
  raises \<open>IndexError\<close>; \<open>struct.unpack('<H', ...)\<close> of fewer than two bytes raises
  \<open>struct.error\<close>.
\<close>

function deserialize_loop :: "bytes \<Rightarrow> item list \<Rightarrow> py_error + item list" where
  "deserialize_loop [] opcodes = Inr opcodes"
| "deserialize_loop (opcode # rest) opcodes =
     (if uint opcode < OP_PUSHDATA1 then
        deserialize_loop (drop (unat opcode) rest) (opcodes @ [Push (take (unat opcode) rest)])
      else if uint opcode = OP_PUSHDATA1 then
        (case rest of
           [] \<Rightarrow> Inl IndexError
         | len # rest' \<Rightarrow>
             deserialize_loop (drop (unat len) rest') (opcodes @ [Push (take (unat len) rest')]))
      else if uint opcode = OP_PUSHDATA2 then
        (case rest of
           lo # hi # rest' \<Rightarrow>
             (let len = unat lo + 256 * unat hi in
              deserialize_loop (drop len rest') (opcodes @ [Push (take len rest')]))
         | _ \<Rightarrow> Inl StructError)
      else deserialize_loop rest (opcodes @ [Op (uint opcode)]))"
  by pat_completeness auto
termination
  by (relation "measure (\<lambda>(data, opcodes). length data)") auto

definition deserialize :: "bytes \<Rightarrow> py_error + item list" where
  "deserialize data = deserialize_loop data []"

section \<open>The script interpreter\<close>

text \<open>
  The transaction context is a dictionary read with \<open>get\<close> and a default; a missing key
  is \<open>None\<close>; the fields carry the prefix \<open>ctx_\<close>.  The default of \<open>current_time\<close> is the clock reading \<open>int(time.time())\<close>,
  an input of the model.
\<close>

record tx_context =
  ctx_tx_data :: "bytes option"
  ctx_current_time :: "int option"
  ctx_block_height :: "int option"
  ctx_sequence :: "int option"

record interp =
  stack :: "bytes list"
  alt_stack :: "bytes list"
  transaction_context :: tx_context
  clock :: int

text \<open>\<open>ScriptInterpreter.__init__\<close>: the only place where the stacks are made empty.\<close>

definition new_interpreter :: "tx_context \<Rightarrow> int \<Rightarrow> interp" where
  "new_interpreter c now =
     \<lparr>stack = [], alt_stack = [], transaction_context = c, clock = now\<rparr>"

definition empty_context :: tx_context where
  "empty_context = \<lparr>ctx_tx_data = None, ctx_current_time = None, ctx_block_height = None, ctx_sequence = None\<rparr>"

definition cast_to_bool :: "bytes \<Rightarrow> bool" where
  "cast_to_bool data = (if length data = 0 then False else if data = [0x80] then False else True)"

function encode_loop :: "int \<Rightarrow> bytes \<Rightarrow> bytes" where
  "encode_loop n result =
     (if n > 0 then encode_loop (drop_bit 8 n) (result @ [word_of_int (n AND 0xff)]) else result)"
  by pat_completeness auto
termination
  by (relation "measure (\<lambda>(n, result). nat n)") (auto simp: drop_bit_eq_div)

declare encode_loop.simps [simp del]

definition encode_num :: "int \<Rightarrow> bytes" where
  "encode_num n =
     (if n = 0 then []
      else
        let negative = n < 0;
            result = encode_loop (abs n) []
        in if last result AND 0x80 \<noteq> 0 then result @ [if negative then 0x80 else 0x00]
           else if negative then butlast result @ [last result OR 0x80]
           else result)"

fun decode_loop :: "nat \<Rightarrow> bytes \<Rightarrow> int \<Rightarrow> int" where
  "decode_loop i [] result = result"
| "decode_loop i (byte # data) result = decode_loop (i + 1) data (result OR push_bit (8 * i) (uint byte))"

definition decode_num :: "bytes \<Rightarrow> int" where
  "decode_num data =
     (if length data = 0 then 0
      else
        let negative = last data AND 0x80 \<noteq> 0;
            data' = (if negative then butlast data @ [last data AND 0x7f] else data);
            result = decode_loop 0 data' 0
        in if negative then - result else result)"

text \<open>
  Stack helpers.  The Python list \<open>self.stack\<close> grows at its end: \<open>append\<close> adds a last
  element, \<open>pop()\<close> removes it, \<open>stack[-k]\<close> is the \<open>k\<close>-th element from the end.
\<close>

definition push :: "bytes \<Rightarrow> interp \<Rightarrow> interp" where
  "push x s = s\<lparr>stack := stack s @ [x]\<rparr>"

definition pop :: "interp \<Rightarrow> interp" where
  "pop s = s\<lparr>stack := butlast (stack s)\<rparr>"

definition top_of :: "interp \<Rightarrow> bytes" where
  "top_of s = last (stack s)"

definition from_end :: "nat \<Rightarrow> interp \<Rightarrow> bytes" where
  "from_end k s = stack s ! (length (stack s) - k)"

text \<open>\<open>[self.stack.pop() for _ in range(k)]\<close>: the popped elements, topmost first.\<close>

definition pop_many :: "nat \<Rightarrow> interp \<Rightarrow> bytes list \<times> interp" where
  "pop_many k s =
     (take k (rev (stack s)), s\<lparr>stack := take (length (stack s) - k) (stack s)\<rparr>)"

definition get_tx_data :: "interp \<Rightarrow> bytes" where
  "get_tx_data s = (case ctx_tx_data (transaction_context s) of None \<Rightarrow> [] | Some d \<Rightarrow> d)"

text \<open>The signature-matching loop of \<open>OP_CHECKMULTISIG\<close>, over \<open>reversed(pubkeys)\<close>.\<close>

fun multisig_loop :: "hashlib \<Rightarrow> bytes \<Rightarrow> bytes list \<Rightarrow> bytes list \<Rightarrow> nat \<Rightarrow> nat" where
  "multisig_loop L txd [] signatures sig_index = sig_index"
| "multisig_loop L txd (pubkey # pubkeys) signatures sig_index =
     (if sig_index \<ge> length signatures then sig_index
      else if verify_signature L pubkey txd (signatures ! sig_index)
           then multisig_loop L txd pubkeys signatures (sig_index + 1)
           else multisig_loop L txd pubkeys signatures sig_index)"

text \<open>
  \<open>_execute_opcode\<close>.  The result is the interpreter after the call together with the
  \<open>ScriptError\<close> raised, if any: a raise leaves the stack as it was mutated so far.
\<close>

definition raise :: "string \<Rightarrow> interp \<Rightarrow> py_error option \<times> interp" where
  "raise msg s = (Some (ScriptError msg), s)"

definition ok :: "interp \<Rightarrow> py_error option \<times> interp" where
  "ok s = (None, s)"

definition op_checkmultisig :: "hashlib \<Rightarrow> interp \<Rightarrow> py_error option \<times> interp" where
  "op_checkmultisig L s0 =
     (if length (stack s0) < 1 then raise ''OP_CHECKMULTISIG: stack underflow'' s0
      else
        let n = decode_num (top_of s0); s1 = pop s0 in
        if int (length (stack s1)) < n then raise ''OP_CHECKMULTISIG: not enough public keys'' s1
        else
          let (pubkeys, s2) = pop_many (nat n) s1 in
          if length (stack s2) < 1 then raise ''OP_CHECKMULTISIG: stack underflow'' s2
          else
            let m = decode_num (top_of s2); s3 = pop s2 in
            if int (length (stack s3)) < m then raise ''OP_CHECKMULTISIG: not enough signatures'' s3
            else
              let (signatures, s4) = pop_many (nat m) s3 in
              if length (stack s4) < 1 then raise ''OP_CHECKMULTISIG: stack underflow (bug)'' s4
              else
                let s5 = pop s4;
                    txd = get_tx_data s5;
                    sig_index = multisig_loop L txd (rev pubkeys) signatures 0;
                    valid = (int sig_index = m)
                in ok (push (if valid then [0x01] else []) s5))"

definition execute_opcode :: "hashlib \<Rightarrow> interp \<Rightarrow> int \<Rightarrow> py_error option \<times> interp" where
  "execute_opcode L s opcode =
     (if OP_0 \<le> opcode \<and> opcode \<le> OP_16 then
        (if opcode = OP_0 then ok (push [] s)
         else ok (push (encode_num (opcode - OP_1 + 1)) s))
      else if opcode = OP_NOP then ok s
      else if opcode = OP_VERIFY then
        (if length (stack s) < 1 then raise ''OP_VERIFY: stack underflow'' s
         else if \<not> cast_to_bool (top_of s) then raise ''OP_VERIFY: verify failed'' s
         else ok (pop s))
      else if opcode = OP_RETURN then raise ''OP_RETURN: script failed'' s
      else if opcode = OP_DUP then
        (if length (stack s) < 1 then raise ''OP_DUP: stack underflow'' s
         else ok (push (top_of s) s))
      else if opcode = OP_DROP then
        (if length (stack s) < 1 then raise ''OP_DROP: stack underflow'' s
         else ok (pop s))
      else if opcode = OP_SWAP then
        (if length (stack s) < 2 then raise ''OP_SWAP: stack underflow'' s
         else ok (push (from_end 2 s) (push (from_end 1 s) (pop (pop s)))))
      else if opcode = OP_2DUP then
        (if length (stack s) < 2 then raise ''OP_2DUP: stack underflow'' s
         else ok (push (from_end 1 s) (push (from_end 2 s) s)))
      else if opcode = OP_3DUP then
        (if length (stack s) < 3 then raise ''OP_3DUP: stack underflow'' s
         else ok (push (from_end 1 s) (push (from_end 2 s) (push (from_end 3 s) s))))
      else if opcode = OP_OVER then
        (if length (stack s) < 2 then raise ''OP_OVER: stack underflow'' s
         else ok (push (from_end 2 s) s))
      else if opcode = OP_ROT then
        (if length (stack s) < 3 then raise ''OP_ROT: stack underflow'' s
         else ok (push (from_end 3 s) (push (from_end 1 s) (push (from_end 2 s) (pop (pop (pop s)))))))
      else if opcode = OP_EQUAL then
        (if length (stack s) < 2 then raise ''OP_EQUAL: stack underflow'' s
         else
           let a = top_of s; s1 = pop s; b = top_of s1; s2 = pop s1
           in ok (push (if a = b then [0x01] else []) s2))
      else if opcode = OP_EQUALVERIFY then
        (if length (stack s) < 2 then raise ''OP_EQUALVERIFY: stack underflow'' s
         else
           let a = top_of s; s1 = pop s; b = top_of s1; s2 = pop s1
           in if a \<noteq> b then raise ''OP_EQUALVERIFY: equality check failed'' s2 else ok s2)
      else if opcode = OP_1ADD then
        (if length (stack s) < 1 then raise ''OP_1ADD: stack underflow'' s
         else let n = decode_num (top_of s) in ok (push (encode_num (n + 1)) (pop s)))
      else if opcode = OP_1SUB then
        (if length (stack s) < 1 then raise ''OP_1SUB: stack underflow'' s
         else let n = decode_num (top_of s) in ok (push (encode_num (n - 1)) (pop s)))
      else if opcode = OP_ADD then
        (if length (stack s) < 2 then raise ''OP_ADD: stack underflow'' s
         else
           let b = decode_num (top_of s); s1 = pop s; a = decode_num (top_of s1); s2 = pop s1
           in ok (push (encode_num (a + b)) s2))
      else if opcode = OP_SUB then
        (if length (stack s) < 2 then raise ''OP_SUB: stack underflow'' s
         else
           let b = decode_num (top_of s); s1 = pop s; a = decode_num (top_of s1); s2 = pop s1
           in ok (push (encode_num (a - b)) s2))
      else if opcode = OP_SHA256 then
        (if length (stack s) < 1 then raise ''OP_SHA256: stack underflow'' s
         else ok (push (sha256 L (top_of s)) (pop s)))
      else if opcode = OP_HASH160 then
        (if length (stack s) < 1 then raise ''OP_HASH160: stack underflow'' s
         else ok (push (hash160 L (top_of s)) (pop s)))
      else if opcode = OP_HASH256 then
        (if length (stack s) < 1 then raise ''OP_HASH256: stack underflow'' s
         else ok (push (hash256 L (top_of s)) (pop s)))
      else if opcode = OP_CHECKSIG then
        (if length (stack s) < 2 then raise ''OP_CHECKSIG: stack underflow'' s
         else
           let pubkey = top_of s; s1 = pop s; signature = top_of s1; s2 = pop s1;
               valid = verify_signature L pubkey (get_tx_data s2) signature
           in ok (push (if valid then [0x01] else []) s2))
      else if opcode = OP_CHECKSIGVERIFY then
        (if length (stack s) < 2 then raise ''OP_CHECKSIGVERIFY: stack underflow'' s
         else
           let pubkey = top_of s; s1 = pop s; signature = top_of s1; s2 = pop s1
           in if \<not> verify_signature L pubkey (get_tx_data s2) signature
              then raise ''OP_CHECKSIGVERIFY: signature verification failed'' s2
              else ok s2)
      else if opcode = OP_CHECKMULTISIG then op_checkmultisig L s
      else if opcode = OP_CHECKLOCKTIMEVERIFY then
        (if length (stack s) < 1 then raise ''OP_CHECKLOCKTIMEVERIFY: stack underflow'' s
         else
           let locktime = decode_num (top_of s);
               current_time = (case ctx_current_time (transaction_context s) of
                                 None \<Rightarrow> clock s | Some t \<Rightarrow> t)
           in if locktime < 500000000 then
                (let current_height = (case ctx_block_height (transaction_context s) of
                                         None \<Rightarrow> 0 | Some h \<Rightarrow> h)
                 in if locktime > current_height
                    then raise ''OP_CHECKLOCKTIMEVERIFY: locktime not met (block height)'' s
                    else ok s)
              else if locktime > current_time
                   then raise ''OP_CHECKLOCKTIMEVERIFY: locktime not met (timestamp)'' s
                   else ok s)
      else if opcode = OP_CHECKSEQUENCEVERIFY then
        (if length (stack s) < 1 then raise ''OP_CHECKSEQUENCEVERIFY: stack underflow'' s
         else
           let sequence = decode_num (top_of s);
               tx_sequence = (case ctx_sequence (transaction_context s) of
                                None \<Rightarrow> 0xffffffff | Some q \<Rightarrow> q)
           in if sequence < 0 then raise ''OP_CHECKSEQUENCEVERIFY: negative sequence'' s
              else if sequence > tx_sequence then raise ''OP_CHECKSEQUENCEVERIFY: sequence not met'' s
              else ok s)
      else if opcode \<in> {OP_NOP1, OP_NOP4, OP_NOP5, OP_NOP6, OP_NOP7, OP_NOP8, OP_NOP9, OP_NOP10}
      then ok s
      else raise ''Unknown or unimplemented opcode'' s)"

text \<open>
  \<open>ScriptInterpreter.execute\<close>: the \<open>for\<close> loop over the items, then the test of the
  final stack; a \<open>ScriptError\<close> is caught and turned into \<open>False\<close>.  The method does
  not assign \<open>self.stack\<close> or \<open>self.alt_stack\<close> before the loop, so the model starts
  from the stacks of the interpreter it is given, and returns the interpreter it leaves.
\<close>

fun run_items :: "hashlib \<Rightarrow> interp \<Rightarrow> item list \<Rightarrow> py_error option \<times> interp" where
  "run_items L s [] = (None, s)"
| "run_items L s (Push payload # ops) = run_items L (push payload s) ops"
| "run_items L s (Op opcode # ops) =
     (case execute_opcode L s opcode of
        (Some e, s') \<Rightarrow> (Some e, s')
      | (None, s') \<Rightarrow> run_items L s' ops)"

definition execute :: "hashlib \<Rightarrow> interp \<Rightarrow> item list \<Rightarrow> bool \<times> interp" where
  "execute L s script =
     (case run_items L s script of
        (Some e, s') \<Rightarrow> (False, s')
      | (None, s') \<Rightarrow>
          (if length (stack s') = 0 then (False, s') else (cast_to_bool (top_of s'), s')))"

section \<open>Script numbers: the value of a byte string and the valid encodings\<close>

text \<open>The little-endian value of a byte string, used to state what the codec loops compute.\<close>

fun le_val :: "bytes \<Rightarrow> int" where
  "le_val [] = 0"
| "le_val (b # bs) = uint b + 256 * le_val bs"

text \<open>
  A valid script number is minimally encoded: it is empty, or the low seven bits of its
  last byte are not all zero, or its last byte is a bare sign byte (\<open>0x00\<close> or \<open>0x80\<close>)
  that is needed because the byte before it has its high bit set.
\<close>

definition valid_num :: "bytes \<Rightarrow> bool" where
  "valid_num data =
     (data = [] \<or> last data AND 0x7f \<noteq> 0 \<or>
      (length data \<ge> 2 \<and> data ! (length data - 2) AND 0x80 \<noteq> 0))"

section \<open>Script templates\<close>

text \<open>The static methods of \<open>ScriptTemplates\<close>, each returning the item list of the script.\<close>

definition p2pkh_script_pubkey :: "bytes \<Rightarrow> item list" where
  "p2pkh_script_pubkey pubkey_hash =
     [Op OP_DUP, Op OP_HASH160, Push pubkey_hash, Op OP_EQUALVERIFY, Op OP_CHECKSIG]"

definition p2pkh_script_sig :: "bytes \<Rightarrow> bytes \<Rightarrow> item list" where
  "p2pkh_script_sig signature pubkey = [Push signature, Push pubkey]"

definition p2sh_script_pubkey :: "bytes \<Rightarrow> item list" where
  "p2sh_script_pubkey script_hash = [Op OP_HASH160, Push script_hash, Op OP_EQUAL]"

definition p2wpkh_script_pubkey :: "bytes \<Rightarrow> item list" where
  "p2wpkh_script_pubkey pubkey_hash = [Op OP_0, Push pubkey_hash]"

definition p2wsh_script_pubkey :: "bytes \<Rightarrow> item list" where
  "p2wsh_script_pubkey script_hash = [Op OP_0, Push script_hash]"

definition multisig_script_pubkey :: "int \<Rightarrow> bytes list \<Rightarrow> item list" where
  "multisig_script_pubkey m pubkeys =
     (let n = int (length pubkeys) in
      (([Op (m + OP_1 - 1)] @ map Push pubkeys) @ [Op (n + OP_1 - 1)]) @ [Op OP_CHECKMULTISIG])"

definition multisig_script_sig :: "bytes list \<Rightarrow> item list" where
  "multisig_script_sig signatures = [Op OP_0] @ map Push signatures"

definition timelock_script_cltv :: "int \<Rightarrow> bytes \<Rightarrow> item list" where
  "timelock_script_cltv locktime pubkey_hash =
     [Push (encode_num locktime), Op OP_CHECKLOCKTIMEVERIFY, Op OP_DROP, Op OP_DUP,
      Op OP_HASH160, Push pubkey_hash, Op OP_EQUALVERIFY, Op OP_CHECKSIG]"

definition timelock_script_csv :: "int \<Rightarrow> bytes \<Rightarrow> item list" where
  "timelock_script_csv seq pubkey_hash =
     [Push (encode_num seq), Op OP_CHECKSEQUENCEVERIFY, Op OP_DROP, Op OP_DUP,
      Op OP_HASH160, Push pubkey_hash, Op OP_EQUALVERIFY, Op OP_CHECKSIG]"

definition htlc_script :: "bytes \<Rightarrow> int \<Rightarrow> bytes \<Rightarrow> bytes \<Rightarrow> item list" where
  "htlc_script hash_lock timeout recipient_pubkey_hash sender_pubkey_hash =
     [Op OP_IF, Op OP_SHA256, Push hash_lock, Op OP_EQUALVERIFY, Op OP_DUP, Op OP_HASH160,
      Push recipient_pubkey_hash, Op OP_ELSE, Push (encode_num timeout),
      Op OP_CHECKLOCKTIMEVERIFY, Op OP_DROP, Op OP_DUP, Op OP_HASH160,
      Push sender_pubkey_hash, Op OP_ENDIF, Op OP_EQUALVERIFY, Op OP_CHECKSIG]"

section \<open>Scripts that the wire format represents\<close>

text \<open>
  The items that \<open>serialize\<close> accepts and \<open>deserialize\<close> reads back: an opcode item is
  \<open>OP_0\<close> or a byte from \<open>0x4e\<close> to \<open>0xff\<close> (the three bytes below are taken for
  push headers), and a payload has at most 65535 bytes (the largest length that
  \<open>struct.pack('<H', \<dots>)\<close> takes).  \<open>canon\<close> is the item that comes back: the byte
  \<open>0x00\<close> is read as a push of zero bytes, so \<open>OP_0\<close> comes back as the empty payload.
\<close>

definition wf_item :: "item \<Rightarrow> bool" where
  "wf_item it = (case it of Op v \<Rightarrow> v = OP_0 \<or> (0x4e \<le> v \<and> v \<le> 0xff)
                          | Push payload \<Rightarrow> length payload \<le> 0xffff)"

definition canon :: "item \<Rightarrow> item" where
  "canon it = (case it of Op v \<Rightarrow> if v = OP_0 then Push [] else Op v
                        | Push payload \<Rightarrow> Push payload)"

section \<open>Transactions and the UTXO set\<close>

text \<open>
  Python strings are lists of characters; \<open>str.encode()\<close> gives their bytes.  The
  dataclasses of the ledger module are records.
\<close>

record TxInput =
  prev_tx_hash :: string
  prev_output_index :: int
  signature :: bytes
  public_key :: bytes

record TxOutput =
  amount :: int
  recipient_address :: string

record Transaction =
  inputs :: "TxInput list"
  outputs :: "TxOutput list"
  timestamp :: int
  tx_hash :: string

text \<open>
  \<open>UTXOSet.utxos\<close> is a dictionary whose keys are the strings
  \<open>f"{tx_hash}:{output_index}"\<close>.  The decimal rendering of an integer contains no colon,
  so two such strings are equal exactly when both the hash and the index are equal: the
  model keys the dictionary by the pair.  A Python dictionary keeps its keys in insertion
  order, assigning to a present key replaces the value in place: this is an association
  list with \<open>AList.update\<close> and \<open>AList.delete\<close>.
\<close>

type_synonym outpoint = "string \<times> int"
type_synonym utxos = "(outpoint \<times> TxOutput) list"

definition add_utxo :: "utxos \<Rightarrow> string \<Rightarrow> int \<Rightarrow> TxOutput \<Rightarrow> utxos" where
  "add_utxo u h output_index output = AList.update (h, output_index) output u"

definition remove_utxo :: "utxos \<Rightarrow> string \<Rightarrow> int \<Rightarrow> utxos" where
  "remove_utxo u h output_index =
     (if (h, output_index) \<in> fst ` set u then AList.delete (h, output_index) u else u)"

definition get_balance :: "utxos \<Rightarrow> string \<Rightarrow> int" where
  "get_balance u address =
     fold (\<lambda>(k, utxo) balance. if recipient_address utxo = address then balance + amount utxo
                                else balance) u 0"

definition zero_hash :: string where
  "zero_hash = replicate 64 CHR ''0''"

definition update_with_transaction :: "utxos \<Rightarrow> Transaction \<Rightarrow> utxos" where
  "update_with_transaction u tx =
     (let u1 = fold (\<lambda>inp u'. if prev_tx_hash inp \<noteq> zero_hash
                               then remove_utxo u' (prev_tx_hash inp) (prev_output_index inp)
                               else u')
                    (inputs tx) u
      in fold (\<lambda>(idx, output) u'. add_utxo u' (tx_hash tx) (int idx) output)
              (enumerate 0 (outputs tx)) u1)"

text \<open>The quantities of the conservation claim.\<close>

definition total_amount :: "utxos \<Rightarrow> int" where
  "total_amount u = sum_list (map (\<lambda>(k, utxo). amount utxo) u)"

definition spent_outpoints :: "Transaction \<Rightarrow> outpoint list" where
  "spent_outpoints tx =
     remdups (map (\<lambda>inp. (prev_tx_hash inp, prev_output_index inp))
                  (filter (\<lambda>inp. prev_tx_hash inp \<noteq> zero_hash) (inputs tx)))"

definition spent_amount :: "utxos \<Rightarrow> Transaction \<Rightarrow> int" where
  "spent_amount u tx =
     sum_list (map (\<lambda>k. case map_of u k of None \<Rightarrow> 0 | Some utxo \<Rightarrow> amount utxo)
                   (spent_outpoints tx))"

definition output_amount :: "Transaction \<Rightarrow> int" where
  "output_amount tx = sum_list (map amount (outputs tx))"

definition created_outpoints :: "Transaction \<Rightarrow> outpoint list" where
  "created_outpoints tx = map (\<lambda>idx. (tx_hash tx, int idx)) [0..<length (outputs tx)]"

text \<open>Vocabulary of the proofs: the amount stored under a key, and removal of a list of keys.\<close>

definition amt :: "utxos \<Rightarrow> outpoint \<Rightarrow> int" where
  "amt u k = (case map_of u k of None \<Rightarrow> 0 | Some v \<Rightarrow> amount v)"

definition remove_all :: "outpoint list \<Rightarrow> utxos \<Rightarrow> utxos" where
  "remove_all ks u = fold (\<lambda>k u'. remove_utxo u' (fst k) (snd k)) ks u"

text \<open>
  Two concrete transactions: a coinbase paying 50 coins to a miner, and a payment that
  spends its output.  Their hashes are 64 hexadecimal characters.
\<close>

definition example_coinbase :: Transaction where
  "example_coinbase =
     \<lparr>inputs = [\<lparr>prev_tx_hash = zero_hash, prev_output_index = 0xFFFFFFFF,
                 signature = [], public_key = []\<rparr>],
      outputs = [\<lparr>amount = 5000000000, recipient_address = ''miner''\<rparr>],
      timestamp = 1700000000, tx_hash = replicate 64 CHR ''c''\<rparr>"

definition example_payment :: Transaction where
  "example_payment =
     \<lparr>inputs = [\<lparr>prev_tx_hash = replicate 64 CHR ''c'', prev_output_index = 0,
                 signature = replicate 32 0xa1, public_key = replicate 32 0x01\<rparr>],
      outputs = [\<lparr>amount = 1000000000, recipient_address = ''bob''\<rparr>,
                 \<lparr>amount = 4000000000, recipient_address = ''miner''\<rparr>],
      timestamp = 1700000100, tx_hash = replicate 64 CHR ''d''\<rparr>"

section \<open>The mempool\<close>

text \<open>
  A Python set of transaction ids is a list of ids; \<open>add\<close> and \<open>discard\<close> are
  \<open>set_add\<close> and \<open>set_discard\<close>, and every statement about such a list is about the set
  of its elements, so it holds for every iteration order.  The field \<open>size\<close> of the
  dataclass is \<open>tx_size\<close> here.
\<close>

record MempoolTransaction =
  tx_id :: string
  fee :: int
  tx_size :: int
  parents :: "string list"
  children :: "string list"

definition set_add :: "'a \<Rightarrow> 'a list \<Rightarrow> 'a list" where
  "set_add x xs = (if x \<in> set xs then xs else xs @ [x])"

definition set_discard :: "'a \<Rightarrow> 'a list \<Rightarrow> 'a list" where
  "set_discard x xs = removeAll x xs"

text \<open>
  \<open>Mempool.transactions\<close> is a dictionary from ids to transaction objects, in insertion
  order.  The statement \<open>self.transactions[k].children.add(x)\<close> of the source changes the
  object stored under \<open>k\<close>; \<open>touch\<close> is that step for one key, guarded by
  \<open>k in self.transactions\<close>.
\<close>

type_synonym mempool = "(string \<times> MempoolTransaction) list"

definition touch ::
  "(MempoolTransaction \<Rightarrow> MempoolTransaction) \<Rightarrow> string \<Rightarrow> mempool \<Rightarrow> mempool" where
  "touch g k mp = (case map_of mp k of Some t \<Rightarrow> AList.update k (g t) mp | None \<Rightarrow> mp)"

definition add_child :: "string \<Rightarrow> MempoolTransaction \<Rightarrow> MempoolTransaction" where
  "add_child x t = t\<lparr>children := set_add x (children t)\<rparr>"

definition discard_child :: "string \<Rightarrow> MempoolTransaction \<Rightarrow> MempoolTransaction" where
  "discard_child x t = t\<lparr>children := set_discard x (children t)\<rparr>"

definition discard_parent :: "string \<Rightarrow> MempoolTransaction \<Rightarrow> MempoolTransaction" where
  "discard_parent x t = t\<lparr>parents := set_discard x (parents t)\<rparr>"

definition add_transaction :: "mempool \<Rightarrow> MempoolTransaction \<Rightarrow> mempool" where
  "add_transaction mp tx =
     fold (\<lambda>parent_id m. touch (add_child (tx_id tx)) parent_id m) (parents tx)
          (AList.update (tx_id tx) tx mp)"

definition get_transaction :: "mempool \<Rightarrow> string \<Rightarrow> MempoolTransaction option" where
  "get_transaction mp k = map_of mp k"

text \<open>
  \<open>remove_transaction\<close>.  The second loop runs over \<open>tx.children\<close> of the stored object
  as the first loop left it.
\<close>

definition remove_transaction :: "mempool \<Rightarrow> string \<Rightarrow> mempool" where
  "remove_transaction mp k =
     (case map_of mp k of
        None \<Rightarrow> mp
      | Some tx \<Rightarrow>
          let m1 = fold (\<lambda>parent_id m. touch (discard_child k) parent_id m) (parents tx) mp;
              tx1 = (case map_of m1 k of Some t \<Rightarrow> t | None \<Rightarrow> tx);
              m2 = fold (\<lambda>child_id m. touch (discard_parent k) child_id m) (children tx1) m1
          in AList.delete k m2)"

definition get_all_transactions :: "mempool \<Rightarrow> MempoolTransaction list" where
  "get_all_transactions mp = map snd mp"

text \<open>
  The edge sets are consistent when, for all stored \<open>t\<close> and \<open>c\<close>, the id of \<open>c\<close> is
  among the children of \<open>t\<close> exactly when the id of \<open>t\<close> is among the parents of \<open>c\<close>.
\<close>

definition consistent :: "mempool \<Rightarrow> bool" where
  "consistent mp =
     (\<forall>t\<in>set (get_all_transactions mp). \<forall>c\<in>set (get_all_transactions mp).
        (tx_id c \<in> set (children t)) = (tx_id t \<in> set (parents c)))"

text \<open>Sequences of calls, and the calls that keep the edge sets consistent.\<close>

datatype mempool_call = Add MempoolTransaction | Remove string

fun call :: "mempool \<Rightarrow> mempool_call \<Rightarrow> mempool" where
  "call mp (Add tx) = add_transaction mp tx"
| "call mp (Remove k) = remove_transaction mp k"

definition calls :: "mempool \<Rightarrow> mempool_call list \<Rightarrow> mempool" where
  "calls mp cs = fold (\<lambda>c m. call m c) cs mp"

text \<open>
  An added transaction arrives in order when its id is not stored yet, its children set is
  empty (the default of the dataclass), and no stored transaction names it as a parent.
\<close>

fun in_order :: "mempool \<Rightarrow> mempool_call \<Rightarrow> bool" where
  "in_order mp (Add tx) =
     (tx_id tx \<notin> fst ` set mp \<and> children tx = [] \<and>
      list_all (\<lambda>t. tx_id tx \<notin> set (parents t)) (get_all_transactions mp))"
| "in_order mp (Remove k) = True"

fun all_in_order :: "mempool \<Rightarrow> mempool_call list \<Rightarrow> bool" where
  "all_in_order mp [] = True"
| "all_in_order mp (c # cs) = (in_order mp c \<and> all_in_order (call mp c) cs)"

definition mtx :: "string \<Rightarrow> int \<Rightarrow> int \<Rightarrow> string list \<Rightarrow> MempoolTransaction" where
  "mtx i f s ps = \<lparr>tx_id = i, fee = f, tx_size = s, parents = ps, children = []\<rparr>"

text \<open>
  Vocabulary of the proofs.  A mempool is well kept when its keys are distinct, every
  object is stored under its own id, the edge sets are consistent, and every child id
  that a stored transaction lists is itself stored.
\<close>

definition well_kept_map :: "(string \<rightharpoonup> MempoolTransaction) \<Rightarrow> bool" where
  "well_kept_map M =
     ((\<forall>k t. M k = Some t \<longrightarrow> tx_id t = k) \<and>
      (\<forall>kt t kc c. M kt = Some t \<longrightarrow> M kc = Some c \<longrightarrow>
          (kc \<in> set (children t)) = (kt \<in> set (parents c))) \<and>
      (\<forall>k t. M k = Some t \<longrightarrow> set (children t) \<subseteq> dom M))"

definition well_kept :: "mempool \<Rightarrow> bool" where
  "well_kept mp = (distinct (map fst mp) \<and> well_kept_map (map_of mp))"

section \<open>Blocks, proof of work and the chain\<close>

text \<open>
  \<open>struct.pack('<I', v)\<close> and \<open>struct.pack('<Q', v)\<close>: four and eight little-endian
  bytes, \<open>struct.error\<close> outside the unsigned range.  \<open>b''.join(data)\<close> over chunks that
  are packed one after the other raises at the first chunk that fails.
\<close>

definition pack_I :: "int \<Rightarrow> py_error + bytes" where
  "pack_I v = (if 0 \<le> v \<and> v < 2 ^ 32
               then Inr (map (\<lambda>i. word_of_int (v div 256 ^ i)) [0..<4])
               else Inl StructError)"

definition pack_Q :: "int \<Rightarrow> py_error + bytes" where
  "pack_Q v = (if 0 \<le> v \<and> v < 2 ^ 64
               then Inr (map (\<lambda>i. word_of_int (v div 256 ^ i)) [0..<8])
               else Inl StructError)"

fun join_chunks :: "(py_error + bytes) list \<Rightarrow> py_error + bytes" where
  "join_chunks [] = Inr []"
| "join_chunks (Inl e # cs) = Inl e"
| "join_chunks (Inr c # cs) = (case join_chunks cs of Inl e \<Rightarrow> Inl e | Inr r \<Rightarrow> Inr (c @ r))"

text \<open>
  \<open>str.encode()\<close> is UTF-8.  A string of the model is a list of characters with code
  points below 256: a code point below 128 is encoded as one byte, a code point from 128
  to 255 as the two bytes \<open>0xC0 + (n >> 6)\<close> and \<open>0x80 + (n & 0x3F)\<close>.  \<open>bytes.hex()\<close>
  writes two lower-case hexadecimal digits for each byte.
\<close>

definition encode_char :: "char \<Rightarrow> bytes" where
  "encode_char c = (let n = (of_char c :: nat)
                    in if n < 128 then [of_nat n]
                       else [of_nat (192 + n div 64), of_nat (128 + n mod 64)])"

definition encode :: "string \<Rightarrow> bytes" where
  "encode s = concat (map encode_char s)"

definition hex_digit :: "nat \<Rightarrow> char" where
  "hex_digit n = ''0123456789abcdef'' ! (n mod 16)"

definition hex :: "bytes \<Rightarrow> string" where
  "hex bs = concat (map (\<lambda>b. [hex_digit (unat b div 16), hex_digit (unat b mod 16)]) bs)"

definition serialize_for_hashing :: "Transaction \<Rightarrow> py_error + bytes" where
  "serialize_for_hashing tx =
     join_chunks
       ([pack_I (timestamp tx), pack_I (int (length (inputs tx)))] @
        concat (map (\<lambda>inp. [Inr (encode (prev_tx_hash inp)), pack_I (prev_output_index inp)])
                    (inputs tx)) @
        [pack_I (int (length (outputs tx)))] @
        concat (map (\<lambda>out. [pack_Q (amount out), Inr (encode (recipient_address out))])
                    (outputs tx)))"

definition tx_calculate_hash :: "hashlib \<Rightarrow> Transaction \<Rightarrow> py_error + string" where
  "tx_calculate_hash L tx =
     (case serialize_for_hashing tx of Inl e \<Rightarrow> Inl e | Inr tx_data \<Rightarrow> Inr (hex (hash256 L tx_data)))"

text \<open>
  The constructor \<open>Transaction(inputs, outputs)\<close> without a hash: the default timestamp
  is the clock reading \<open>now\<close>, and \<open>__post_init__\<close> computes the hash.
\<close>

definition make_transaction ::
  "hashlib \<Rightarrow> TxInput list \<Rightarrow> TxOutput list \<Rightarrow> int \<Rightarrow> py_error + Transaction" where
  "make_transaction L ins outs now =
     (let tx = \<lparr>inputs = ins, outputs = outs, timestamp = now, tx_hash = ''''\<rparr>
      in case tx_calculate_hash L tx of Inl e \<Rightarrow> Inl e | Inr h \<Rightarrow> Inr (tx\<lparr>tx_hash := h\<rparr>))"

definition create_coinbase_transaction ::
  "hashlib \<Rightarrow> string \<Rightarrow> int \<Rightarrow> int \<Rightarrow> int \<Rightarrow> py_error + Transaction" where
  "create_coinbase_transaction L miner_address blk_height reward now =
     (let coinbase_input = \<lparr>prev_tx_hash = zero_hash, prev_output_index = 0xFFFFFFFF,
                             signature = [], public_key = []\<rparr>;
          output = \<lparr>amount = reward, recipient_address = miner_address\<rparr>
      in make_transaction L [coinbase_input] [output] now)"

text \<open>The dataclass \<open>Block\<close>; its field \<open>timestamp\<close> is \<open>block_timestamp\<close> here.\<close>

record Block =
  index :: int
  block_timestamp :: int
  transactions :: "Transaction list"
  previous_hash :: string
  nonce :: int
  hash :: string
  difficulty :: int

definition block_serialize :: "Block \<Rightarrow> py_error + bytes" where
  "block_serialize b =
     join_chunks
       ([pack_I (index b), pack_Q (block_timestamp b), Inr (encode (previous_hash b)),
         pack_I (nonce b), pack_I (difficulty b)] @
        map (\<lambda>tx. Inr (encode (tx_hash tx))) (transactions b))"

definition calculate_hash :: "hashlib \<Rightarrow> Block \<Rightarrow> py_error + string" where
  "calculate_hash L b =
     (case block_serialize b of Inl e \<Rightarrow> Inl e | Inr block_data \<Rightarrow> Inr (hex (hash256 L block_data)))"

text \<open>\<open>Block(index, timestamp, transactions, previous_hash, difficulty=d)\<close>: nonce 0, and
  \<open>__post_init__\<close> computes the hash.\<close>

definition make_block ::
  "hashlib \<Rightarrow> int \<Rightarrow> int \<Rightarrow> Transaction list \<Rightarrow> string \<Rightarrow> int \<Rightarrow> py_error + Block" where
  "make_block L i ts txs prev d =
     (let b = \<lparr>index = i, block_timestamp = ts, transactions = txs, previous_hash = prev,
                nonce = 0, hash = '''', difficulty = d\<rparr>
      in case calculate_hash L b of Inl e \<Rightarrow> Inl e | Inr h \<Rightarrow> Inr (b\<lparr>hash := h\<rparr>))"

definition startswith :: "string \<Rightarrow> string \<Rightarrow> bool" where
  "startswith s prefix = (take (length prefix) s = prefix)"

definition target_of :: "int \<Rightarrow> string" where
  "target_of d = replicate (nat d) CHR ''0''"

text \<open>
  The \<open>while True\<close> loop of \<open>mine_block\<close>, with \<open>attempts\<close> as its argument.  It stops when
  the hash starts with the target, or when \<open>attempts\<close> has passed the safety limit; the
  measure is the distance to the limit.
\<close>

function mine_loop :: "hashlib \<Rightarrow> Block \<Rightarrow> string \<Rightarrow> int \<Rightarrow> py_error + Block" where
  "mine_loop L b target attempts =
     (let b1 = b\<lparr>nonce := attempts\<rparr> in
      case calculate_hash L b1 of
        Inl e \<Rightarrow> Inl e
      | Inr h \<Rightarrow>
          let b2 = b1\<lparr>hash := h\<rparr> in
          if startswith h target then Inr b2
          else if attempts + 1 > 10000000 then Inr b2
          else mine_loop L b2 target (attempts + 1))"
  by pat_completeness auto
termination
  by (relation "measure (\<lambda>(L, b, target, attempts). nat (10000001 - attempts))") auto

declare mine_loop.simps [simp del]

definition mine_block :: "hashlib \<Rightarrow> Block \<Rightarrow> int option \<Rightarrow> py_error + Block" where
  "mine_block L b d =
     (let b0 = (case d of Some d' \<Rightarrow> b\<lparr>difficulty := d'\<rparr> | None \<Rightarrow> b)
      in mine_loop L b0 (target_of (difficulty b0)) 0)"

record Blockchain =
  chain :: "Block list"
  pending_transactions :: "Transaction list"
  utxo_set :: utxos
  chain_difficulty :: int
  mining_reward :: int


definition mine_pending_transactions ::
  "hashlib \<Rightarrow> Blockchain \<Rightarrow> string \<Rightarrow> int \<Rightarrow> int \<Rightarrow> py_error + Block \<times> Blockchain" where
  "mine_pending_transactions L bc miner_address t_tx t_block =
     (case create_coinbase_transaction L miner_address (int (length (chain bc)))
             (mining_reward bc) t_tx of
        Inl e \<Rightarrow> Inl e
      | Inr coinbase_tx \<Rightarrow>
          let txs = [coinbase_tx] @ pending_transactions bc in
          if chain bc = [] then Inl IndexError
          else
            (case make_block L (int (length (chain bc))) t_block txs (hash (last (chain bc)))
                    (chain_difficulty bc) of
               Inl e \<Rightarrow> Inl e
             | Inr new_block \<Rightarrow>
                 (case mine_block L new_block None of
                    Inl e \<Rightarrow> Inl e
                  | Inr mined \<Rightarrow>
                      Inr (mined,
                           bc\<lparr>chain := chain bc @ [mined],
                              utxo_set := fold (\<lambda>tx u. update_with_transaction u tx) txs (utxo_set bc),
                              pending_transactions := []\<rparr>))))"








section \<open>Choosing the transactions of a block\<close>

text \<open>
  The exceptions that the selection code can raise.
\<close>

datatype selection_error =
  Index_Error | Key_Error | Attribute_Error | Recursion_Error | Overflow_Error

text \<open>
  Float arithmetic is Python's, not the repository's, and only the order of the computed
  floats matters to the code: they are sort keys.  A float is represented by its position
  in the order of the floats, an integer, with \<open>0.0\<close> (and the integer \<open>0\<close> that the code
  mixes with floats) at position 0.  The true division \<open>a / b\<close> of two integers is a
  parameter of the model; it may raise (\<open>OverflowError\<close> for a quotient outside the float
  range).  A statement that does not fix the parameter holds for every such division.
\<close>

record floats =
  truediv :: "int \<Rightarrow> int \<Rightarrow> selection_error + int"

definition fee_per_byte :: "floats \<Rightarrow> MempoolTransaction \<Rightarrow> selection_error + int" where
  "fee_per_byte F tx = (if tx_size tx > 0 then truediv F (fee tx) (tx_size tx) else Inr 0)"

text \<open>
  \<open>sorted(xs, key=k, reverse=True)\<close>: the keys are computed first, for every element in
  order; the sort is stable, also in reverse.
\<close>

fun keyed_items :: "('a \<Rightarrow> selection_error + int) \<Rightarrow> 'a list \<Rightarrow> selection_error + (int \<times> 'a) list" where
  "keyed_items k [] = Inr []"
| "keyed_items k (x # xs) =
     (case k x of
        Inl e \<Rightarrow> Inl e
      | Inr v \<Rightarrow> (case keyed_items k xs of Inl e \<Rightarrow> Inl e | Inr r \<Rightarrow> Inr ((v, x) # r)))"

definition sorted_reverse :: "('a \<Rightarrow> selection_error + int) \<Rightarrow> 'a list \<Rightarrow> selection_error + 'a list" where
  "sorted_reverse k xs =
     (case keyed_items k xs of
        Inl e \<Rightarrow> Inl e
      | Inr kxs \<Rightarrow> Inr (map snd (rev (sort_key fst (rev kxs)))))"

definition issubset :: "'a list \<Rightarrow> 'a list \<Rightarrow> bool" where
  "issubset xs ys = list_all (\<lambda>x. x \<in> set ys) xs"

subsection \<open>Algorithm 1: greedy\<close>

record greedy_state =
  g_selected :: "string list"
  g_selected_ids :: "string list"
  g_current_size :: int
  g_total_fee :: int

definition greedy_step :: "int \<Rightarrow> MempoolTransaction \<Rightarrow> greedy_state \<Rightarrow> greedy_state" where
  "greedy_step max_block_size tx st =
     (if \<not> issubset (parents tx) (g_selected_ids st) then st
      else if g_current_size st + tx_size tx \<le> max_block_size
      then \<lparr>g_selected = g_selected st @ [tx_id tx],
            g_selected_ids = set_add (tx_id tx) (g_selected_ids st),
            g_current_size = g_current_size st + tx_size tx,
            g_total_fee = g_total_fee st + fee tx\<rparr>
      else st)"

definition greedy_loop :: "int \<Rightarrow> MempoolTransaction list \<Rightarrow> greedy_state" where
  "greedy_loop max_block_size sorted_txs =
     fold (greedy_step max_block_size) sorted_txs
       \<lparr>g_selected = [], g_selected_ids = [], g_current_size = 0, g_total_fee = 0\<rparr>"

definition greedy_selection ::
  "floats \<Rightarrow> mempool \<Rightarrow> int \<Rightarrow> selection_error + string list \<times> int \<times> int" where
  "greedy_selection F mp max_block_size =
     (case sorted_reverse (fee_per_byte F) (get_all_transactions mp) of
        Inl e \<Rightarrow> Inl e
      | Inr sorted_txs \<Rightarrow>
          let st = greedy_loop max_block_size sorted_txs
          in Inr (g_selected st, g_total_fee st, g_current_size st))"

subsection \<open>Algorithm 2: dynamic programming\<close>

text \<open>
  \<open>xs[i]\<close> for a Python list: a negative index counts from the end, and an index outside
  \<open>-len(xs) .. len(xs) - 1\<close> raises \<open>IndexError\<close>.
\<close>

definition py_nth :: "'a list \<Rightarrow> int \<Rightarrow> selection_error + 'a" where
  "py_nth xs i =
     (if 0 \<le> i \<and> i < int (length xs) then Inr (xs ! nat i)
      else if - int (length xs) \<le> i \<and> i < 0 then Inr (xs ! nat (int (length xs) + i))
      else Inl Index_Error)"

definition scale :: int where
  "scale = 1000"

text \<open>
  The table \<open>dp\<close> is a list of \<open>n + 1\<close> rows of \<open>max_size_scaled + 1\<close> entries.  The loops
  write row \<open>i\<close> from row \<open>i - 1\<close>, entry by entry: \<open>fill_row\<close> is the inner loop over
  \<open>w\<close>, \<open>fill_table\<close> the outer loop, which returns the rows \<open>1 .. n\<close>.
\<close>

fun fill_row :: "int list \<Rightarrow> int \<Rightarrow> int \<Rightarrow> int list \<Rightarrow> selection_error + int list" where
  "fill_row prev tx_size_scaled tx_fee [] = Inr []"
| "fill_row prev tx_size_scaled tx_fee (w # ws) =
     (case py_nth prev w of
        Inl e \<Rightarrow> Inl e
      | Inr skip \<Rightarrow>
          (case (if tx_size_scaled \<le> w
                 then (case py_nth prev (w - tx_size_scaled) of
                         Inl e \<Rightarrow> Inl e
                       | Inr v \<Rightarrow> Inr (max skip (v + tx_fee)))
                 else Inr skip) of
             Inl e \<Rightarrow> Inl e
           | Inr entry \<Rightarrow>
               (case fill_row prev tx_size_scaled tx_fee ws of
                  Inl e \<Rightarrow> Inl e
                | Inr r \<Rightarrow> Inr (entry # r))))"

fun fill_table :: "int \<Rightarrow> int list \<Rightarrow> MempoolTransaction list \<Rightarrow> selection_error + int list list" where
  "fill_table max_size_scaled prev [] = Inr []"
| "fill_table max_size_scaled prev (tx # txs) =
     (case fill_row prev (tx_size tx div scale) (fee tx) [0..max_size_scaled] of
        Inl e \<Rightarrow> Inl e
      | Inr row \<Rightarrow>
          (case fill_table max_size_scaled row txs of
             Inl e \<Rightarrow> Inl e
           | Inr rows \<Rightarrow> Inr (row # rows)))"

definition dp_entry :: "int list list \<Rightarrow> int \<Rightarrow> int \<Rightarrow> selection_error + int" where
  "dp_entry dp i w = (case py_nth dp i of Inl e \<Rightarrow> Inl e | Inr row \<Rightarrow> py_nth row w)"

text \<open>
  The backtracking loop \<open>for i in range(n, 0, -1)\<close>; its state is the list \<open>selected\<close>,
  the column \<open>w\<close> and \<open>total_size\<close>.
\<close>

fun backtrack ::
  "int list list \<Rightarrow> MempoolTransaction list \<Rightarrow> nat \<Rightarrow> string list \<times> int \<times> int
     \<Rightarrow> selection_error + string list \<times> int \<times> int" where
  "backtrack dp all_txs 0 st = Inr st"
| "backtrack dp all_txs (Suc k) (selected, w, total_size) =
     (case dp_entry dp (int (Suc k)) w of
        Inl e \<Rightarrow> Inl e
      | Inr a \<Rightarrow>
          (case dp_entry dp (int k) w of
             Inl e \<Rightarrow> Inl e
           | Inr b \<Rightarrow>
               if a \<noteq> b
               then (case py_nth all_txs (int k) of
                       Inl e \<Rightarrow> Inl e
                     | Inr tx \<Rightarrow>
                         backtrack dp all_txs k
                           (selected @ [tx_id tx], w - tx_size tx div scale, total_size + tx_size tx))
               else backtrack dp all_txs k (selected, w, total_size)))"

definition dp_candidates :: "floats \<Rightarrow> mempool \<Rightarrow> selection_error + MempoolTransaction list" where
  "dp_candidates F mp =
     (let all_txs = filter (\<lambda>tx. parents tx = []) (get_all_transactions mp)
      in if length all_txs > 100
         then (case sorted_reverse (fee_per_byte F) all_txs of
                 Inl e \<Rightarrow> Inl e
               | Inr s \<Rightarrow> Inr (take 100 s))
         else Inr all_txs)"

definition dp_knapsack_selection ::
  "floats \<Rightarrow> mempool \<Rightarrow> int \<Rightarrow> selection_error + string list \<times> int \<times> int" where
  "dp_knapsack_selection F mp max_block_size =
     (case dp_candidates F mp of
        Inl e \<Rightarrow> Inl e
      | Inr all_txs \<Rightarrow>
          let n = length all_txs;
              max_size_scaled = max_block_size div scale;
              row0 = replicate (nat (max_size_scaled + 1)) 0
          in (case fill_table max_size_scaled row0 all_txs of
                Inl e \<Rightarrow> Inl e
              | Inr rows \<Rightarrow>
                  let dp = row0 # rows
                  in (case backtrack dp all_txs n ([], max_size_scaled, 0) of
                        Inl e \<Rightarrow> Inl e
                      | Inr (selected, w, total_size) \<Rightarrow>
                          (case dp_entry dp (int n) max_size_scaled of
                             Inl e \<Rightarrow> Inl e
                           | Inr total_fee \<Rightarrow> Inr (selected, total_fee, total_size)))))"

subsection \<open>Algorithm 3: ancestor sets\<close>

record AncestorSet =
  tx_ids :: "string list"
  total_fee :: int
  total_size :: int

definition score :: "floats \<Rightarrow> AncestorSet \<Rightarrow> selection_error + int" where
  "score F a = (if total_size a > 0 then truediv F (total_fee a) (total_size a) else Inr 0)"

definition set_update :: "'a list \<Rightarrow> 'a list \<Rightarrow> 'a list" where
  "set_update xs ys = fold set_add ys xs"

text \<open>
  \<open>calculate_ancestor_set\<close> is recursive, and Python raises \<open>RecursionError\<close> when the
  calls nest deeper than the interpreter allows; the first argument is the number of
  nested calls still allowed.  The dictionary \<open>memo\<close> is passed through the calls and
  returned.  \<open>add_parent_sets\<close> is the loop over \<open>tx.parents\<close>; its accumulator holds
  \<open>ancestor_ids\<close>, \<open>total_fee\<close> and \<open>total_size\<close>.
\<close>

type_synonym memo = "(string \<times> AncestorSet) list"

fun calculate_ancestor_set ::
    "nat \<Rightarrow> mempool \<Rightarrow> string \<Rightarrow> memo \<Rightarrow> selection_error + AncestorSet \<times> memo"
  and add_parent_sets ::
    "nat \<Rightarrow> mempool \<Rightarrow> string list \<Rightarrow> AncestorSet \<Rightarrow> memo \<Rightarrow> selection_error + AncestorSet \<times> memo"
  where
  "calculate_ancestor_set 0 mp k memo = Inl Recursion_Error"
| "calculate_ancestor_set (Suc depth) mp k memo =
     (case map_of memo k of
        Some r \<Rightarrow> Inr (r, memo)
      | None \<Rightarrow>
          (case get_transaction mp k of
             None \<Rightarrow> Inr (\<lparr>tx_ids = [], total_fee = 0, total_size = 0\<rparr>, memo)
           | Some tx \<Rightarrow>
               (case add_parent_sets depth mp (parents tx)
                       \<lparr>tx_ids = [k], total_fee = fee tx, total_size = tx_size tx\<rparr> memo of
                  Inl e \<Rightarrow> Inl e
                | Inr (result, memo') \<Rightarrow> Inr (result, AList.update k result memo'))))"
| "add_parent_sets depth mp [] acc memo = Inr (acc, memo)"
| "add_parent_sets depth mp (parent_id # ps) acc memo =
     (case calculate_ancestor_set depth mp parent_id memo of
        Inl e \<Rightarrow> Inl e
      | Inr (parent_set, memo') \<Rightarrow>
          add_parent_sets depth mp ps
            \<lparr>tx_ids = set_update (tx_ids acc) (tx_ids parent_set),
             total_fee = total_fee acc + total_fee parent_set,
             total_size = total_size acc + total_size parent_set\<rparr> memo')"

text \<open>The first loop of \<open>ancestor_set_mining\<close>, over the keys of the mempool.\<close>

fun ancestor_sets_of ::
  "nat \<Rightarrow> mempool \<Rightarrow> string list \<Rightarrow> memo \<Rightarrow> selection_error + (string \<times> AncestorSet) list" where
  "ancestor_sets_of depth mp [] memo = Inr []"
| "ancestor_sets_of depth mp (k # ks) memo =
     (case calculate_ancestor_set depth mp k memo of
        Inl e \<Rightarrow> Inl e
      | Inr (ancestor_set, memo') \<Rightarrow>
          (case ancestor_sets_of depth mp ks memo' of
             Inl e \<Rightarrow> Inl e
           | Inr r \<Rightarrow> Inr ((k, ancestor_set) # r)))"

text \<open>
  \<open>sum(mempool.get_transaction(aid).size for aid in ids)\<close>: the attribute access raises
  \<open>AttributeError\<close> when \<open>get_transaction\<close> returns \<open>None\<close>.
\<close>

fun sum_sizes :: "mempool \<Rightarrow> string list \<Rightarrow> selection_error + int" where
  "sum_sizes mp [] = Inr 0"
| "sum_sizes mp (aid # ids) =
     (case get_transaction mp aid of
        None \<Rightarrow> Inl Attribute_Error
      | Some t \<Rightarrow> (case sum_sizes mp ids of Inl e \<Rightarrow> Inl e | Inr s \<Rightarrow> Inr (tx_size t + s)))"

record mining_state =
  m_selected :: "string list"
  m_current_size :: int
  m_total_fee :: int

fun add_missing :: "mempool \<Rightarrow> string list \<Rightarrow> mining_state \<Rightarrow> selection_error + mining_state" where
  "add_missing mp [] st = Inr st"
| "add_missing mp (ancestor_id # ids) st =
     (case get_transaction mp ancestor_id of
        None \<Rightarrow> Inl Attribute_Error
      | Some ancestor_tx \<Rightarrow>
          add_missing mp ids
            \<lparr>m_selected = set_add ancestor_id (m_selected st),
             m_current_size = m_current_size st + tx_size ancestor_tx,
             m_total_fee = m_total_fee st + fee ancestor_tx\<rparr>)"

definition mining_step ::
  "mempool \<Rightarrow> int \<Rightarrow> string \<times> AncestorSet \<Rightarrow> mining_state \<Rightarrow> selection_error + mining_state" where
  "mining_step mp max_block_size item st =
     (if fst item \<in> set (m_selected st) then Inr st
      else
        let missing_ancestors = filter (\<lambda>a. a \<notin> set (m_selected st)) (tx_ids (snd item))
        in (case sum_sizes mp missing_ancestors of
              Inl e \<Rightarrow> Inl e
            | Inr missing_size \<Rightarrow>
                if m_current_size st + missing_size \<le> max_block_size
                then add_missing mp missing_ancestors st
                else Inr st))"

fun mining_loop ::
  "mempool \<Rightarrow> int \<Rightarrow> (string \<times> AncestorSet) list \<Rightarrow> mining_state \<Rightarrow> selection_error + mining_state" where
  "mining_loop mp max_block_size [] st = Inr st"
| "mining_loop mp max_block_size (item # items) st =
     (case mining_step mp max_block_size item st of
        Inl e \<Rightarrow> Inl e
      | Inr st' \<Rightarrow> mining_loop mp max_block_size items st')"

definition ancestor_set_mining ::
  "floats \<Rightarrow> nat \<Rightarrow> mempool \<Rightarrow> int \<Rightarrow> selection_error + string list \<times> int \<times> int" where
  "ancestor_set_mining F depth mp max_block_size =
     (case ancestor_sets_of depth mp (map fst mp) [] of
        Inl e \<Rightarrow> Inl e
      | Inr ancestor_sets \<Rightarrow>
          (case sorted_reverse (\<lambda>x. score F (snd x)) ancestor_sets of
             Inl e \<Rightarrow> Inl e
           | Inr sorted_sets \<Rightarrow>
               (case mining_loop mp max_block_size sorted_sets
                       \<lparr>m_selected = [], m_current_size = 0, m_total_fee = 0\<rparr> of
                  Inl e \<Rightarrow> Inl e
                | Inr st \<Rightarrow> Inr (m_selected st, m_total_fee st, m_current_size st))))"

subsection \<open>Algorithm 4: simulated annealing\<close>

text \<open>
  The random draws of one iteration are an input of the model: \<open>coin\<close> is the outcome of
  the test \<open>random.random() < 0.5\<close>, \<open>pick\<close> the position that \<open>random.choice\<close> takes in
  its list (modulo the length of the list), and \<open>accept\<close> the outcome of the acceptance
  test of a neighbour that is not better, \<open>random.random() < acceptance_prob\<close>, in which
  the float conversion can raise.  The temperature enters that test only.  The number of
  iterations is the number of draws supplied.
\<close>

record draw =
  coin :: bool
  pick :: nat
  accept :: "selection_error + bool"

definition tx_dict_of :: "MempoolTransaction list \<Rightarrow> mempool" where
  "tx_dict_of all_txs = fold (\<lambda>tx d. AList.update (tx_id tx) tx d) all_txs []"

definition lookup :: "mempool \<Rightarrow> string \<Rightarrow> selection_error + MempoolTransaction" where
  "lookup tx_dict k = (case map_of tx_dict k of None \<Rightarrow> Inl Key_Error | Some t \<Rightarrow> Inr t)"

fun is_valid_from :: "mempool \<Rightarrow> string list \<Rightarrow> string list \<Rightarrow> selection_error + bool" where
  "is_valid_from tx_dict selected_ids [] = Inr True"
| "is_valid_from tx_dict selected_ids (k # ks) =
     (case lookup tx_dict k of
        Inl e \<Rightarrow> Inl e
      | Inr tx \<Rightarrow>
          if \<not> issubset (parents tx) selected_ids then Inr False
          else is_valid_from tx_dict selected_ids ks)"

definition is_valid_selection :: "mempool \<Rightarrow> string list \<Rightarrow> selection_error + bool" where
  "is_valid_selection tx_dict selected_ids = is_valid_from tx_dict selected_ids selected_ids"

fun sum_over :: "(MempoolTransaction \<Rightarrow> int) \<Rightarrow> mempool \<Rightarrow> string list \<Rightarrow> selection_error + int" where
  "sum_over f tx_dict [] = Inr 0"
| "sum_over f tx_dict (k # ks) =
     (case lookup tx_dict k of
        Inl e \<Rightarrow> Inl e
      | Inr tx \<Rightarrow> (case sum_over f tx_dict ks of Inl e \<Rightarrow> Inl e | Inr s \<Rightarrow> Inr (f tx + s)))"

definition calculate_score :: "mempool \<Rightarrow> string list \<Rightarrow> selection_error + int \<times> int" where
  "calculate_score tx_dict selected_ids =
     (case sum_over fee tx_dict selected_ids of
        Inl e \<Rightarrow> Inl e
      | Inr f \<Rightarrow>
          (case sum_over tx_size tx_dict selected_ids of
             Inl e \<Rightarrow> Inl e
           | Inr s \<Rightarrow> Inr (f, s)))"

definition choice :: "'a list \<Rightarrow> nat \<Rightarrow> 'a" where
  "choice xs n = xs ! (n mod length xs)"

text \<open>
  Removing a transaction and its dependents: \<open>discard_children\<close> is the loop over
  \<open>tx.children\<close>, \<open>remove_dependents\<close> the loop \<open>while to_check\<close>, which pops the last
  element.  Every round either raises or shortens \<open>neighbor\<close> and \<open>to_check\<close> together.
\<close>

fun discard_children :: "string list \<Rightarrow> string list \<Rightarrow> string list \<Rightarrow> string list \<times> string list" where
  "discard_children [] neighbor to_check = (neighbor, to_check)"
| "discard_children (child_id # cs) neighbor to_check =
     (if child_id \<in> set neighbor
      then discard_children cs (set_discard child_id neighbor) (to_check @ [child_id])
      else discard_children cs neighbor to_check)"

function remove_dependents :: "mempool \<Rightarrow> string list \<Rightarrow> string list \<Rightarrow> selection_error + string list" where
  "remove_dependents tx_dict neighbor to_check =
     (if to_check = [] then Inr neighbor
      else
        (case lookup tx_dict (last to_check) of
           Inl e \<Rightarrow> Inl e
         | Inr tx \<Rightarrow>
             (case discard_children (children tx) neighbor (butlast to_check) of
                (neighbor', to_check') \<Rightarrow> remove_dependents tx_dict neighbor' to_check')))"
  by pat_completeness auto
termination
proof (relation "measure (\<lambda>(tx_dict, neighbor, to_check). 2 * length neighbor + length to_check)",
    goal_cases)
  case 1
  show ?case by simp
next
  case (2 tx_dict neighbor to_check tx x y)
  have m: "2 * length (fst (discard_children cs nb tc)) + length (snd (discard_children cs nb tc))
      \<le> 2 * length nb + length tc" for cs nb tc
  proof (induction cs arbitrary: nb tc)
    case Nil
    show ?case by simp
  next
    case (Cons c cs)
    show ?case
    proof (cases "c \<in> set nb")
      case True
      then have "length (set_discard c nb) < length nb"
        unfolding set_discard_def by (simp add: length_removeAll_less)
      with Cons[of "set_discard c nb" "tc @ [c]"] True show ?thesis by simp
    next
      case False
      with Cons[of nb tc] show ?thesis by simp
    qed
  qed
  from 2(1) have "length (butlast to_check) < length to_check" by simp
  with m[of "children tx" neighbor "butlast to_check"] 2(3)[symmetric] show ?case
    by simp
qed

declare remove_dependents.simps [simp del]

definition remove_move :: "mempool \<Rightarrow> string list \<Rightarrow> draw \<Rightarrow> selection_error + string list" where
  "remove_move tx_dict neighbor d =
     (let to_remove = choice neighbor (pick d)
      in remove_dependents tx_dict (set_discard to_remove neighbor) [to_remove])"

text \<open>
  Adding a transaction with its parents: \<open>enqueue_parents\<close> is the loop over
  \<open>tx.parents\<close>, \<open>collect_parents\<close> the loop \<open>while queue\<close>, which pops the first element.
  An id that is not in \<open>tx_dict\<close> raises when it is popped; every other id enters
  \<open>to_add_set\<close> once.
\<close>

fun enqueue_parents ::
  "string list \<Rightarrow> string list \<Rightarrow> string list \<Rightarrow> string list \<Rightarrow> string list \<times> string list" where
  "enqueue_parents [] neighbor to_add_set queue = (to_add_set, queue)"
| "enqueue_parents (parent_id # ps) neighbor to_add_set queue =
     (if parent_id \<notin> set neighbor \<and> parent_id \<notin> set to_add_set
      then enqueue_parents ps neighbor (set_add parent_id to_add_set) (queue @ [parent_id])
      else enqueue_parents ps neighbor to_add_set queue)"

function collect_parents ::
  "mempool \<Rightarrow> string list \<Rightarrow> string list \<Rightarrow> string list \<Rightarrow> selection_error + string list" where
  "collect_parents tx_dict neighbor to_add_set queue =
     (if queue = [] then Inr to_add_set
      else
        (case lookup tx_dict (hd queue) of
           Inl e \<Rightarrow> Inl e
         | Inr tx \<Rightarrow>
             (case enqueue_parents (parents tx) neighbor to_add_set (tl queue) of
                (to_add_set', queue') \<Rightarrow> collect_parents tx_dict neighbor to_add_set' queue')))"
  by pat_completeness auto
termination
proof (relation "measure (\<lambda>(tx_dict, neighbor, to_add_set, queue).
         card (fst ` set tx_dict - set to_add_set)
         + length (filter (\<lambda>k. k \<in> fst ` set tx_dict) queue))", goal_cases)
  case 1
  show ?case by simp
next
  case (2 tx_dict neighbor to_add_set queue tx x y)
  let ?K = "fst ` set tx_dict"
  have m: "card (?K - set (fst (enqueue_parents ps nb s q)))
         + length (filter (\<lambda>k. k \<in> ?K) (snd (enqueue_parents ps nb s q)))
      \<le> card (?K - set s) + length (filter (\<lambda>k. k \<in> ?K) q)" for ps nb s q
  proof (induction ps arbitrary: s q)
    case Nil
    show ?case by simp
  next
    case (Cons p ps)
    show ?case
    proof (cases "p \<notin> set nb \<and> p \<notin> set s")
      case True
      have "card (?K - set (set_add p s)) + length (filter (\<lambda>k. k \<in> ?K) (q @ [p]))
          \<le> card (?K - set s) + length (filter (\<lambda>k. k \<in> ?K) q)"
      proof (cases "p \<in> ?K")
        case k: True
        have "?K - set (set_add p s) = (?K - set s) - {p}"
          using True by (auto simp: set_add_def)
        moreover have "p \<in> ?K - set s" using k True by simp
        moreover have "finite (?K - set s)" by simp
        ultimately have "card (?K - set (set_add p s)) + 1 = card (?K - set s)"
          using card.remove[of "?K - set s" p] by simp
        with k show ?thesis by simp
      next
        case k: False
        have "?K - set (set_add p s) = ?K - set s"
          using True k by (auto simp: set_add_def)
        with k show ?thesis by simp
      qed
      with Cons[of "set_add p s" "q @ [p]"] True show ?thesis by simp
    next
      case False
      with Cons[of s q] show ?thesis by auto
    qed
  qed
  from 2(1,2) have "hd queue \<in> ?K"
    by (auto simp: lookup_def split: option.splits dest: map_of_SomeD intro: rev_image_eqI)
  with 2(1) have "length (filter (\<lambda>k. k \<in> ?K) (tl queue)) < length (filter (\<lambda>k. k \<in> ?K) queue)"
    by (cases queue) simp_all
  with m[of "parents tx" neighbor to_add_set "tl queue"] 2(3)[symmetric] show ?case
    by simp
qed

declare collect_parents.simps [simp del]

definition add_move ::
  "mempool \<Rightarrow> MempoolTransaction list \<Rightarrow> int \<Rightarrow> string list \<Rightarrow> draw
     \<Rightarrow> selection_error + string list" where
  "add_move tx_dict all_txs max_block_size neighbor d =
     (let candidates = filter (\<lambda>tx. tx_id tx \<notin> set neighbor) all_txs
      in if candidates = [] then Inr neighbor
         else
           let to_add = choice candidates (pick d)
           in (case collect_parents tx_dict neighbor [tx_id to_add] [tx_id to_add] of
                 Inl e \<Rightarrow> Inl e
               | Inr to_add_set \<Rightarrow>
                   (case sum_over tx_size tx_dict to_add_set of
                      Inl e \<Rightarrow> Inl e
                    | Inr add_size \<Rightarrow>
                        (case sum_over tx_size tx_dict neighbor of
                           Inl e \<Rightarrow> Inl e
                         | Inr neighbor_size \<Rightarrow>
                             if neighbor_size + add_size \<le> max_block_size
                             then Inr (set_update neighbor to_add_set)
                             else Inr neighbor))))"

record annealing_state =
  current_selection :: "string list"
  current_fee :: int
  current_size :: int
  best_selection :: "string list"
  best_fee :: int

text \<open>One iteration of the main loop.\<close>

definition annealing_step ::
  "mempool \<Rightarrow> MempoolTransaction list \<Rightarrow> int \<Rightarrow> draw \<Rightarrow> annealing_state
     \<Rightarrow> selection_error + annealing_state" where
  "annealing_step tx_dict all_txs max_block_size d st =
     (case (if coin d \<and> current_selection st \<noteq> []
            then remove_move tx_dict (current_selection st) d
            else add_move tx_dict all_txs max_block_size (current_selection st) d) of
        Inl e \<Rightarrow> Inl e
      | Inr neighbor \<Rightarrow>
          (case is_valid_selection tx_dict neighbor of
             Inl e \<Rightarrow> Inl e
           | Inr valid \<Rightarrow>
               if \<not> valid then Inr st
               else
                 (case calculate_score tx_dict neighbor of
                    Inl e \<Rightarrow> Inl e
                  | Inr (neighbor_fee, neighbor_size) \<Rightarrow>
                      if neighbor_size \<le> max_block_size
                      then
                        if neighbor_fee > current_fee st
                        then
                          let st1 = st\<lparr>current_selection := neighbor, current_fee := neighbor_fee,
                                       current_size := neighbor_size\<rparr>
                          in if current_fee st1 > best_fee st1
                             then Inr (st1\<lparr>best_selection := current_selection st1,
                                           best_fee := current_fee st1\<rparr>)
                             else Inr st1
                        else
                          (case accept d of
                             Inl e \<Rightarrow> Inl e
                           | Inr accepted \<Rightarrow>
                               if accepted
                               then Inr (st\<lparr>current_selection := neighbor,
                                            current_fee := neighbor_fee,
                                            current_size := neighbor_size\<rparr>)
                               else Inr st)
                      else Inr st)))"

fun annealing_loop ::
  "mempool \<Rightarrow> MempoolTransaction list \<Rightarrow> int \<Rightarrow> draw list \<Rightarrow> annealing_state
     \<Rightarrow> selection_error + annealing_state" where
  "annealing_loop tx_dict all_txs max_block_size [] st = Inr st"
| "annealing_loop tx_dict all_txs max_block_size (d # ds) st =
     (case annealing_step tx_dict all_txs max_block_size d st of
        Inl e \<Rightarrow> Inl e
      | Inr st' \<Rightarrow> annealing_loop tx_dict all_txs max_block_size ds st')"

definition simulated_annealing_selection ::
  "floats \<Rightarrow> mempool \<Rightarrow> int \<Rightarrow> draw list \<Rightarrow> selection_error + string list \<times> int \<times> int" where
  "simulated_annealing_selection F mp max_block_size draws =
     (let all_txs = get_all_transactions mp;
          tx_dict = tx_dict_of all_txs
      in (case greedy_selection F mp max_block_size of
            Inl e \<Rightarrow> Inl e
          | Inr (initial_selected, initial_fee, initial_size) \<Rightarrow>
              let current = remdups initial_selected
              in (case calculate_score tx_dict current of
                    Inl e \<Rightarrow> Inl e
                  | Inr (fee0, size0) \<Rightarrow>
                      (case annealing_loop tx_dict all_txs max_block_size draws
                              \<lparr>current_selection = current, current_fee = fee0,
                               current_size = size0, best_selection = current,
                               best_fee = fee0\<rparr> of
                         Inl e \<Rightarrow> Inl e
                       | Inr st \<Rightarrow>
                           (case sum_over tx_size tx_dict (best_selection st) of
                              Inl e \<Rightarrow> Inl e
                            | Inr best_size \<Rightarrow>
                                Inr (best_selection st, best_fee st, best_size))))))"

subsection \<open>What a selection has to satisfy\<close>

text \<open>
  A mempool as the class keeps it: the keys of the dictionary are distinct and every
  transaction is stored under its own id.
\<close>

definition keyed :: "mempool \<Rightarrow> bool" where
  "keyed mp = (distinct (map fst mp) \<and> list_all (\<lambda>(k, t). tx_id t = k) mp)"

text \<open>
  The sum of the actual sizes of the selected transactions; the selection is closed when
  every parent of a selected transaction is selected, and closed in the pool when every
  parent that the mempool stores is.
\<close>

definition stored :: "mempool \<Rightarrow> string list \<Rightarrow> bool" where
  "stored mp ids = list_all (\<lambda>k. map_of mp k \<noteq> None) ids"

definition actual_size :: "mempool \<Rightarrow> string list \<Rightarrow> int" where
  "actual_size mp ids =
     sum_list (map (\<lambda>k. case map_of mp k of Some t \<Rightarrow> tx_size t | None \<Rightarrow> 0) ids)"

definition scaled_size :: "mempool \<Rightarrow> string list \<Rightarrow> int" where
  "scaled_size mp ids =
     sum_list (map (\<lambda>k. case map_of mp k of Some t \<Rightarrow> tx_size t div scale | None \<Rightarrow> 0) ids)"

definition parents_selected :: "mempool \<Rightarrow> string list \<Rightarrow> bool" where
  "parents_selected mp ids =
     list_all (\<lambda>k. case map_of mp k of
                      Some t \<Rightarrow> list_all (\<lambda>p. p \<in> set ids) (parents t)
                    | None \<Rightarrow> True) ids"

definition closed_at :: "mempool \<Rightarrow> string list \<Rightarrow> string \<Rightarrow> bool" where
  "closed_at mp ids k =
     (case map_of mp k of
        Some t \<Rightarrow> list_all (\<lambda>p. p \<in> set ids \<or> map_of mp p = None) (parents t)
      | None \<Rightarrow> True)"

definition stored_parents_selected :: "mempool \<Rightarrow> string list \<Rightarrow> bool" where
  "stored_parents_selected mp ids = list_all (closed_at mp ids) ids"

definition no_parents :: "mempool \<Rightarrow> string list \<Rightarrow> bool" where
  "no_parents mp ids =
     list_all (\<lambda>k. case map_of mp k of Some t \<Rightarrow> parents t = [] | None \<Rightarrow> True) ids"

text \<open>
  Vocabulary of the proofs about ancestor sets: a set of ids without duplicates, all
  stored, that holds every stored parent of its members; and a memo table whose entry for
  \<open>k\<close> is such a set and contains \<open>k\<close> when \<open>k\<close> is stored.
\<close>

definition ancestor_closed :: "mempool \<Rightarrow> string list \<Rightarrow> bool" where
  "ancestor_closed mp ids = (distinct ids \<and> stored mp ids \<and> stored_parents_selected mp ids)"

definition set_for :: "mempool \<Rightarrow> string \<Rightarrow> AncestorSet \<Rightarrow> bool" where
  "set_for mp k a =
     (ancestor_closed mp (tx_ids a) \<and> (map_of mp k \<noteq> None \<longrightarrow> k \<in> set (tx_ids a)))"

definition good_memo :: "mempool \<Rightarrow> memo \<Rightarrow> bool" where
  "good_memo mp memo = (\<forall>k a. map_of memo k = Some a \<longrightarrow> set_for mp k a)"

text \<open>
  Conditions under which the strategies raise nothing: the float division never raises;
  an acceptance test never raises; every parent is stored; and the parents have a rank
  below that of their children, below the nesting that the interpreter allows.
\<close>

definition never_raises :: "floats \<Rightarrow> bool" where
  "never_raises F = (\<forall>a b. \<exists>x. truediv F a b = Inr x)"

definition ranked :: "mempool \<Rightarrow> (string \<Rightarrow> nat) \<Rightarrow> nat \<Rightarrow> bool" where
  "ranked mp rank depth =
     list_all (\<lambda>(k, t). rank k < depth \<and> list_all (\<lambda>p. rank p < rank k) (parents t)) mp"

definition parents_stored :: "mempool \<Rightarrow> bool" where
  "parents_stored mp = list_all (\<lambda>(k, t). list_all (\<lambda>p. map_of mp p \<noteq> None) (parents t)) mp"

definition accepts :: "draw list \<Rightarrow> bool" where
  "accepts draws = list_all (\<lambda>d. case accept d of Inl e \<Rightarrow> False | Inr b \<Rightarrow> True) draws"

definition sizes_nonnegative :: "mempool \<Rightarrow> bool" where
  "sizes_nonnegative mp = list_all (\<lambda>(k, t). 0 \<le> tx_size t) mp"


section \<open>Verification of the number codec\<close>

subsection \<open>The loops compute the little-endian value\<close>

lemma le_val_nonneg: "0 \<le> le_val bs"
  by (induction bs) auto

lemma or_push_bit_add:
  fixes r x :: int
  assumes "0 \<le> r" "r < 2 ^ k"
  shows "r OR push_bit k x = r + push_bit k x"
proof -
  have r: "take_bit k r = r" using assms by (simp add: take_bit_int_eq_self)
  have "take_bit k r AND push_bit k x = 0"
    by (auto simp: bit_eq_iff bit_simps)
  then have "r AND push_bit k x = 0" by (simp add: r)
  then show ?thesis by (simp add: disjunctive_add_eq_or)
qed

lemma decode_loop_eq:
  "0 \<le> r \<Longrightarrow> r < 2 ^ (8 * i) \<Longrightarrow> decode_loop i data r = r + 2 ^ (8 * i) * le_val data"
proof (induction data arbitrary: i r)
  case Nil then show ?case by simp
next
  case (Cons b bs)
  define P :: int where "P = 2 ^ (8 * i)"
  have P: "0 < P" "r < P" using Cons.prems by (simp_all add: P_def)
  have ub: "0 \<le> uint b" "uint b < 256" using uint_bounded[of b] by simp_all
  let ?r = "r + uint b * P"
  have pb: "push_bit (8 * i) (uint b) = uint b * P" by (simp add: push_bit_eq_mult P_def)
  have eq: "r OR push_bit (8 * i) (uint b) = ?r"
    using or_push_bit_add[OF Cons.prems, of "uint b"] by (simp only: pb)
  have nn: "0 \<le> ?r" using Cons.prems ub P by simp
  have "uint b * P \<le> 255 * P" using ub P by simp
  then have "?r < 256 * P" using P by linarith
  moreover have P2: "(2::int) ^ (8 * (i + 1)) = 256 * P" by (simp add: P_def power_add)
  ultimately have lt: "?r < 2 ^ (8 * (i + 1))" by simp
  have "decode_loop i (b # bs) r = decode_loop (i + 1) bs ?r"
    by (simp only: decode_loop.simps eq)
  also have "\<dots> = ?r + 2 ^ (8 * (i + 1)) * le_val bs" using Cons.IH[OF nn lt] .
  also have "\<dots> = r + P * le_val (b # bs)" by (simp only: P2 le_val.simps) (simp add: algebra_simps)
  finally show ?case by (simp only: P_def)
qed

lemma decode_loop_0: "decode_loop 0 data 0 = le_val data"
  using decode_loop_eq[of 0 0 data] by simp

lemma encode_loop_acc: "encode_loop n acc = acc @ encode_loop n []"
proof (induction "nat n" arbitrary: n acc rule: less_induct)
  case less
  show ?case
  proof (cases "n > 0")
    case True
    let ?w = "word_of_int (n AND 0xff) :: byte"
    have sm: "nat (drop_bit 8 n) < nat n" using True by (simp add: drop_bit_eq_div)
    have a: "encode_loop n acc = encode_loop (drop_bit 8 n) (acc @ [?w])"
      using True by (subst encode_loop.simps) simp
    have b: "encode_loop n [] = encode_loop (drop_bit 8 n) [?w]"
      using True by (subst encode_loop.simps) simp
    have c: "encode_loop (drop_bit 8 n) (acc @ [?w]) = (acc @ [?w]) @ encode_loop (drop_bit 8 n) []"
      using less[OF sm] .
    have d: "encode_loop (drop_bit 8 n) [?w] = [?w] @ encode_loop (drop_bit 8 n) []"
      using less[OF sm] .
    show ?thesis by (simp only: a b c d append_assoc)
  next
    case False
    then show ?thesis by (subst (1 2) encode_loop.simps) simp
  qed
qed

lemma encode_loop_unfold:
  "encode_loop n [] = (if n > 0 then word_of_int (n AND 0xff) # encode_loop (drop_bit 8 n) [] else [])"
proof (cases "n > 0")
  case True
  have "encode_loop n [] = encode_loop (drop_bit 8 n) [word_of_int (n AND 0xff)]"
    using True by (subst encode_loop.simps) simp
  also have "\<dots> = [word_of_int (n AND 0xff)] @ encode_loop (drop_bit 8 n) []"
    by (rule encode_loop_acc)
  finally show ?thesis using True by simp
next
  case False
  then show ?thesis by (subst encode_loop.simps) simp
qed

lemma and_255: "(n::int) AND 0xff = n mod 256"
proof -
  have "n AND mask 8 = n mod 2 ^ 8"
    by (simp only: take_bit_eq_mask[symmetric] take_bit_eq_mod)
  then show ?thesis by (simp add: mask_eq_exp_minus_1)
qed

lemma uint_byte_of [simp]: "uint (word_of_int (n mod 256) :: byte) = n mod 256"
  by (simp add: uint_word_of_int)

lemma le_val_encode_loop: "0 \<le> n \<Longrightarrow> le_val (encode_loop n []) = n"
proof (induction "nat n" arbitrary: n rule: less_induct)
  case less
  show ?case
  proof (cases "n > 0")
    case True
    have sm: "nat (drop_bit 8 n) < nat n" using True by (simp add: drop_bit_eq_div)
    have nn: "0 \<le> drop_bit 8 n" using True by (simp add: drop_bit_eq_div)
    have "le_val (encode_loop n []) = n mod 256 + 256 * le_val (encode_loop (drop_bit 8 n) [])"
      using True by (subst encode_loop_unfold) (simp add: and_255)
    also have "\<dots> = n mod 256 + 256 * (n div 256)"
      using less(1)[OF sm nn] by (simp add: drop_bit_eq_div)
    finally show ?thesis by simp
  next
    case False
    with less.prems have "n = 0" by simp
    then show ?thesis by (subst encode_loop_unfold) simp
  qed
qed

lemma encode_loop_last: "0 < n \<Longrightarrow> encode_loop n [] \<noteq> [] \<and> last (encode_loop n []) \<noteq> 0"
proof (induction "nat n" arbitrary: n rule: less_induct)
  case less
  have sm: "nat (drop_bit 8 n) < nat n" using less.prems by (simp add: drop_bit_eq_div)
  have u: "encode_loop n [] = word_of_int (n AND 0xff) # encode_loop (drop_bit 8 n) []"
    using less.prems by (subst encode_loop_unfold) simp
  show ?case
  proof (cases "drop_bit 8 n > 0")
    case True
    from less(1)[OF sm True] show ?thesis by (simp add: u)
  next
    case False
    then have small: "n < 256" using less.prems by (simp add: drop_bit_eq_div)
    have e: "encode_loop (drop_bit 8 n) [] = []"
      using False by (subst encode_loop_unfold) simp
    have "uint (word_of_int (n AND 0xff) :: byte) = n"
      using small less.prems by (simp add: and_255 uint_word_of_int)
    then have "(word_of_int (n AND 0xff) :: byte) \<noteq> 0" using less.prems by auto
    then show ?thesis by (simp add: u e)
  qed
qed

lemma encode_loop_le_val:
  "bs = [] \<or> last bs \<noteq> 0 \<Longrightarrow> encode_loop (le_val bs) [] = bs"
proof (induction bs)
  case Nil
  then show ?case by (subst encode_loop_unfold) simp
next
  case (Cons b bs)
  have ub: "0 \<le> uint b" "uint b < 256" using uint_bounded[of b] by simp_all
  have tl: "bs = [] \<or> last bs \<noteq> 0" using Cons.prems by auto
  have pos: "0 < le_val (b # bs)"
  proof (cases "bs = []")
    case True
    then have "b \<noteq> 0" using Cons.prems by simp
    then have "uint b \<noteq> 0" by (simp add: uint_0_iff)
    then show ?thesis using ub(1) True by (simp add: less_le)
  next
    case False
    then have "last bs \<noteq> 0" using tl by simp
    have "le_val bs \<noteq> 0"
    proof
      assume z: "le_val bs = 0"
      have "encode_loop (le_val bs) [] = bs" using Cons.IH[OF tl] .
      then show False using False z by (subst (asm) encode_loop_unfold) simp
    qed
    then have "0 < le_val bs" using le_val_nonneg[of bs] by simp
    then show ?thesis by (simp add: add_nonneg_pos)
  qed
  define v where "v = le_val (b # bs)"
  have m: "v mod 256 = uint b" using ub by (simp add: v_def)
  have d: "v div 256 = le_val bs" using ub by (simp add: v_def)
  have "0 < v" using pos by (simp only: v_def)
  then have "encode_loop v [] = word_of_int (v mod 256) # encode_loop (v div 256) []"
    by (subst encode_loop_unfold) (simp add: and_255 drop_bit_eq_div)
  also have "\<dots> = b # bs" using Cons.IH[OF tl] by (simp only: m d word_of_int_uint)
  finally show ?case by (simp only: v_def)
qed

subsection \<open>Sign bit and low seven bits of a byte\<close>

lemma h7f: "(0x7f::byte) = mask 7" by (simp add: mask_eq_exp_minus_1)
lemma h80: "(0x80::byte) = 2 ^ 7" by simp

lemma hi_bit: "((x::byte) AND 0x80 \<noteq> 0) = bit x 7"
  unfolding h80 and_exp_eq_0_iff_not_bit by simp

lemma b128: "bit (128::byte) n = (n = 7)"
proof -
  have e: "(128::byte) = 2 ^ 7" by simp
  show ?thesis unfolding e by (subst bit_exp_iff) (auto simp: possible_bit_word)
qed

lemma lt8: "n < 8 \<Longrightarrow> n \<noteq> 7 \<Longrightarrow> n < (7::nat)" by simp

lemma byte_hi_clear: "((x::byte) AND 0x7f) AND 0x80 = 0"
  using hi_bit[of "x AND 0x7f"] unfolding h7f by (simp add: bit_simps)

lemma byte_or_hi: "(x::byte) AND 0x80 = 0 \<Longrightarrow> (x OR 0x80) AND 0x7f = x"
proof -
  assume "x AND 0x80 = 0"
  then have nb: "\<not> bit x 7" using hi_bit[of x] by simp
  show ?thesis unfolding h7f h80
  proof (rule bit_word_eqI)
    fix n assume "n < LENGTH(8)"
    then have "n < 8" by simp
    then show "bit ((x OR 2 ^ 7) AND mask 7) n = bit x n"
      using nb lt8[of n] b128[of n] by (auto simp: bit_simps)
  qed
qed

lemma byte_or_hi_set: "((x::byte) OR 0x80) AND 0x80 \<noteq> 0"
  using hi_bit[of "x OR 0x80"] unfolding h80 by (simp add: bit_simps)

lemma byte_restore: "(x::byte) AND 0x80 \<noteq> 0 \<Longrightarrow> (x AND 0x7f) OR 0x80 = x"
proof -
  assume "x AND 0x80 \<noteq> 0"
  then have nb: "bit x 7" using hi_bit[of x] by simp
  show ?thesis unfolding h7f h80
  proof (rule bit_word_eqI)
    fix n assume "n < LENGTH(8)"
    then have "n < 8" by simp
    then show "bit ((x AND mask 7) OR 2 ^ 7) n = bit x n"
      using nb lt8[of n] b128[of n] by (auto simp: bit_simps)
  qed
qed

lemma byte_low_zero: "(x::byte) AND 0x7f = 0 \<Longrightarrow> x = (if x AND 0x80 \<noteq> 0 then 0x80 else 0)"
proof -
  assume z: "x AND 0x7f = 0"
  have low: "\<not> bit x n" if "n < 7" for n
  proof -
    have "bit (x AND mask 7) n = bit x n" using that by (simp add: bit_simps)
    then show ?thesis using z unfolding h7f by simp
  qed
  show ?thesis unfolding hi_bit
  proof (cases "bit x 7")
    case True
    have "x = 2 ^ 7"
    proof (rule bit_word_eqI)
      fix n assume "n < LENGTH(8)"
      then have "n < 8" by simp
      then show "bit x n = bit (2 ^ 7 :: byte) n"
        using True low[of n] lt8[of n] b128[of n] by (auto simp: bit_simps)
    qed
    then show "x = (if bit x 7 then 0x80 else 0)" using True by simp
  next
    case False
    have "x = 0"
    proof (rule bit_word_eqI)
      fix n assume "n < LENGTH(8)"
      then have "n < 8" by simp
      then show "bit x n = bit (0 :: byte) n"
        using False low[of n] lt8[of n] b128[of n] by (auto simp: bit_simps)
    qed
    then show "x = (if bit x 7 then 0x80 else 0)" using False by simp
  qed
qed

lemma le_val_append: "le_val (xs @ ys) = le_val xs + 2 ^ (8 * length xs) * le_val ys"
  by (induction xs) (simp_all add: algebra_simps power_add)

lemma le_val_pos: "bs \<noteq> [] \<Longrightarrow> last bs \<noteq> 0 \<Longrightarrow> 0 < le_val bs"
proof -
  assume a: "bs \<noteq> []" "last bs \<noteq> 0"
  have e: "encode_loop (le_val bs) [] = bs" using a by (intro encode_loop_le_val) simp
  have "le_val bs \<noteq> 0"
  proof
    assume "le_val bs = 0"
    then show False using e a by (subst (asm) encode_loop_unfold) simp
  qed
  then show ?thesis using le_val_nonneg[of bs] by simp
qed

subsection \<open>Both round trips\<close>

lemma decode_num_snoc:
  "decode_num (xs @ [l]) =
     (if l AND 0x80 \<noteq> 0 then - le_val (xs @ [l AND 0x7f]) else le_val (xs @ [l]))"
  by (simp add: decode_num_def decode_loop_0 Let_def)

lemma encode_num_pos:
  "0 < n \<Longrightarrow> encode_num n =
     (let r = encode_loop n [] in if last r AND 0x80 \<noteq> 0 then r @ [0x00] else r)"
  by (simp add: encode_num_def Let_def)

lemma encode_num_neg:
  "n < 0 \<Longrightarrow> encode_num n =
     (let r = encode_loop (- n) [] in
      if last r AND 0x80 \<noteq> 0 then r @ [0x80] else butlast r @ [last r OR 0x80])"
  by (simp add: encode_num_def Let_def)

lemma le_val_snoc0: "le_val (xs @ [0]) = le_val xs"
  by (simp add: le_val_append)

lemma byte_and7f_80: "(0x80::byte) AND 0x7f = 0" by simp
lemma byte_80_hi: "(0x80::byte) AND 0x80 \<noteq> 0" by simp

lemma decode_encode: "decode_num (encode_num n) = n"
proof -
  consider "n = 0" | "0 < n" | "n < 0" by linarith
  then show ?thesis
  proof cases
    case 1
    then show ?thesis by (simp add: encode_num_def decode_num_def)
  next
    case 2
    define r where "r = encode_loop n []"
    have r: "r \<noteq> []" "last r \<noteq> 0" "le_val r = n"
      using encode_loop_last[OF 2] le_val_encode_loop[of n] 2 by (simp_all add: r_def)
    have sn: "r = butlast r @ [last r]" using r(1) by simp
    show ?thesis
    proof (cases "last r AND 0x80 \<noteq> 0")
      case True
      then have "encode_num n = r @ [0]" using 2 by (simp add: encode_num_pos r_def)
      then show ?thesis using r by (simp add: decode_num_snoc le_val_snoc0)
    next
      case False
      then have "encode_num n = butlast r @ [last r]" using 2 sn by (simp add: encode_num_pos r_def)
      then have "decode_num (encode_num n) = le_val (butlast r @ [last r])"
        using False by (simp only: decode_num_snoc if_False)
      then show ?thesis using r sn by simp
    qed
  next
    case 3
    define a where "a = - n"
    have a: "0 < a" using 3 by (simp add: a_def)
    define r where "r = encode_loop a []"
    have r: "r \<noteq> []" "last r \<noteq> 0" "le_val r = a"
      using encode_loop_last[OF a] le_val_encode_loop[of a] a by (simp_all add: r_def)
    have sn: "butlast r @ [last r] = r" using r(1) by simp
    show ?thesis
    proof (cases "last r AND 0x80 \<noteq> 0")
      case True
      then have "encode_num n = r @ [0x80]" using 3 by (simp add: encode_num_neg r_def a_def)
      then have "decode_num (encode_num n) = - le_val (r @ [0])"
        by (simp add: decode_num_snoc)
      then show ?thesis using r by (simp add: le_val_snoc0 a_def)
    next
      case False
      then have e: "encode_num n = butlast r @ [last r OR 0x80]"
        using 3 by (simp add: encode_num_neg r_def a_def Let_def)
      have "decode_num (encode_num n) = - le_val (butlast r @ [(last r OR 0x80) AND 0x7f])"
        using byte_or_hi_set[of "last r"] by (simp add: e decode_num_snoc)
      also have "(last r OR 0x80) AND 0x7f = last r" using False by (intro byte_or_hi) simp
      finally show ?thesis using r by (simp add: sn a_def)
    qed
  qed
qed

lemma encode_decode: "valid_num data \<Longrightarrow> encode_num (decode_num data) = data"
proof (cases data rule: rev_cases)
  case Nil
  then show ?thesis by (simp add: encode_num_def decode_num_def)
next
  case (snoc xs l)
  assume v: "valid_num data"
  show ?thesis
  proof (cases "l AND 0x7f \<noteq> 0")
    case True
    show ?thesis
    proof (cases "l AND 0x80 \<noteq> 0")
      case neg: True
      let ?d = "xs @ [l AND 0x7f]"
      have p: "0 < le_val ?d" using True by (intro le_val_pos) simp_all
      have el: "encode_loop (le_val ?d) [] = ?d" using True by (intro encode_loop_le_val) simp
      have "decode_num data = - le_val ?d" using neg by (simp add: snoc decode_num_snoc)
      then have "encode_num (decode_num data) = butlast ?d @ [last ?d OR 0x80]"
        using p el byte_hi_clear[of l] by (simp add: encode_num_neg)
      also have "\<dots> = xs @ [l]" using byte_restore[OF neg] by simp
      finally show ?thesis by (simp add: snoc)
    next
      case pos: False
      have l0: "l \<noteq> 0" using True by auto
      have p: "0 < le_val data" using l0 by (intro le_val_pos) (simp_all add: snoc)
      have el: "encode_loop (le_val data) [] = data" using l0 by (intro encode_loop_le_val) (simp add: snoc)
      have "decode_num data = le_val data" using pos by (simp add: snoc decode_num_snoc)
      then show ?thesis using p el pos by (simp add: encode_num_pos snoc)
    qed
  next
    case False
    then have z: "l AND 0x7f = 0" by simp
    from v False have "length data \<ge> 2 \<and> data ! (length data - 2) AND 0x80 \<noteq> 0"
      by (simp add: valid_num_def snoc)
    then have ge: "length xs \<ge> 1" and nz: "(xs @ [l]) ! (length xs - 1) AND 0x80 \<noteq> 0"
      by (simp_all add: snoc)
    have xs: "xs \<noteq> []" using ge by auto
    have "(xs @ [l]) ! (length xs - 1) = last xs"
      using xs by (simp add: nth_append last_conv_nth)
    then have hi: "last xs AND 0x80 \<noteq> 0" using nz by simp
    have lx: "last xs \<noteq> 0" using hi by auto
    have p: "0 < le_val xs" using xs lx by (rule le_val_pos)
    have el: "encode_loop (le_val xs) [] = xs" using lx by (intro encode_loop_le_val) simp
    show ?thesis
    proof (cases "l AND 0x80 \<noteq> 0")
      case neg: True
      have l: "l = 0x80" using byte_low_zero[OF z] neg by simp
      have "decode_num data = - le_val xs"
        using neg by (simp add: snoc decode_num_snoc z le_val_snoc0)
      then show ?thesis using p el hi by (simp add: encode_num_neg snoc l)
    next
      case pos: False
      have l: "l = 0" using byte_low_zero[OF z] pos by simp
      have "decode_num data = le_val xs"
        using pos by (simp add: snoc decode_num_snoc l le_val_snoc0)
      then show ?thesis using p el hi by (simp add: encode_num_pos snoc l)
    qed
  qed
qed

text \<open>
  C9.  Encoding the decoded value of a valid (minimally encoded) script number gives the
  byte string back, and decoding the encoding of an integer \<open>n\<close> with
  \<open>|n| < 2^63\<close> gives \<open>n\<close> back; zero is the empty string.
\<close>

theorem codec_round_trip:
  "(valid_num data \<longrightarrow> encode_num (decode_num data) = data) \<and>
   (\<bar>n\<bar> < 2 ^ 63 \<longrightarrow> decode_num (encode_num n) = n) \<and>
   encode_num 0 = []"
proof -
  have z: "encode_num 0 = []" by (simp add: encode_num_def)
  show ?thesis using encode_decode[of data] decode_encode[of n] z by blast
qed

theorem codec_round_trip_witness:
  "valid_num [0xff, 0x80] \<and> encode_num (decode_num [0xff, 0x80]) = [0xff, 0x80] \<and>
   \<bar>- 255 :: int\<bar> < 2 ^ 63 \<and> decode_num (encode_num (- 255)) = - 255 \<and>
   decode_num [0xff, 0x80] = - 255"
proof -
  have v: "valid_num [0xff, 0x80]" by (simp add: valid_num_def)
  have d: "decode_num [0xff, 0x80] = - 255" by (simp add: decode_num_def)
  show ?thesis
    using v d codec_round_trip[of "[0xff, 0x80]" "- 255"] by simp
qed

section \<open>Verification of the signature verifier\<close>

text \<open>
  C1 (counterexample).  The verifier accepts two different signatures for one public key
  and one message.  A signing function returns one signature per key and message, so no
  private key makes \<open>verify_signature\<close> accept exactly the output of \<open>sign_message\<close>.
  The wallet's \<open>verify_with_pubkey\<close> accepts both signatures as well.  This holds for
  every hashing library.
\<close>

theorem verify_accepts_two_signatures:
  "\<forall>L. verify_signature L (replicate 32 0) [] (replicate 32 0) \<and>
       verify_signature L (replicate 32 0) [] (replicate 32 1) \<and>
       (\<nexists>priv. \<forall>sig. verify_signature L (replicate 32 0) [] sig
                          = (sig = sign_message L priv [])) \<and>
       verify_with_pubkey (replicate 32 0) [] (replicate 32 0) \<and>
       verify_with_pubkey (replicate 32 0) [] (replicate 32 1)"
proof (intro allI conjI)
  fix L
  show a: "verify_signature L (replicate 32 0) [] (replicate 32 0)"
    by (simp add: verify_signature_def)
  show b: "verify_signature L (replicate 32 0) [] (replicate 32 1)"
    by (simp add: verify_signature_def)
  show "\<nexists>priv. \<forall>sig. verify_signature L (replicate 32 0) [] sig
                        = (sig = sign_message L priv [])"
  proof
    assume "\<exists>priv. \<forall>sig. verify_signature L (replicate 32 0) [] sig
                         = (sig = sign_message L priv [])"
    then obtain priv where
      p: "\<And>sig. verify_signature L (replicate 32 0) [] sig = (sig = sign_message L priv [])"
      by blast
    from a b p have "replicate 32 (0::byte) = replicate 32 1" by simp
    then have "hd (replicate 32 (0::byte)) = hd (replicate 32 1)" by simp
    then show False by simp
  qed
  show "verify_with_pubkey (replicate 32 0) [] (replicate 32 0)"
    by (simp add: verify_with_pubkey_def)
  show "verify_with_pubkey (replicate 32 0) [] (replicate 32 1)"
    by (simp add: verify_with_pubkey_def)
qed

text \<open>
  C1 (amended).  \<open>verify_signature\<close> returns true exactly when the signature and the
  public key are both 32 bytes long, and \<open>verify_with_pubkey\<close> exactly when the
  signature is 32 bytes long; neither result depends on the message, on the content of
  the key or of the signature, or on the hashing library.  In particular a signature
  produced by \<open>sign_message\<close> or \<open>Wallet.sign\<close>, being an HMAC-SHA256 digest, is accepted
  under every 32-byte public key and for every message, whatever private key and
  message it was produced from, as soon as the digest is 32 bytes long (as those of
  \<open>hmac\<close> with \<open>hashlib.sha256\<close> are).
\<close>

theorem verify_checks_lengths_only:
  "verify_signature L pub msg sg = (length sg = 32 \<and> length pub = 32) \<and>
   verify_with_pubkey pub msg sg = (length sg = 32) \<and>
   (length (hmac_sha256 L priv msg') = 32 \<longrightarrow>
      verify_signature L pub msg (sign_message L priv msg') = (length pub = 32) \<and>
      verify_with_pubkey pub msg (wallet_sign L priv msg'))"
  by (simp add: verify_signature_def verify_with_pubkey_def sign_message_def wallet_sign_def)

theorem verify_checks_lengths_only_witness:
  "length (hmac_sha256 (constant_hashlib (replicate 32 7)) [1] [2]) = 32 \<and>
   verify_signature (constant_hashlib (replicate 32 7)) (replicate 32 0) [3]
     (sign_message (constant_hashlib (replicate 32 7)) [1] [2]) \<and>
   verify_with_pubkey (replicate 32 0) [3] (wallet_sign (constant_hashlib (replicate 32 7)) [1] [2]) \<and>
   \<not> verify_signature (constant_hashlib (replicate 32 7)) (replicate 31 0) [3]
     (sign_message (constant_hashlib (replicate 32 7)) [1] [2])"
  using verify_checks_lengths_only [of "constant_hashlib (replicate 32 7)" "replicate 32 0" "[3]"
      "replicate 32 0" "[1]" "[2]"]
    verify_checks_lengths_only [of "constant_hashlib (replicate 32 7)" "replicate 31 0" "[3]"
      "replicate 32 0" "[1]" "[2]"]
  by (simp add: constant_hashlib_def)

section \<open>Verification of the interpreter\<close>

lemma run_items_append:
  "run_items L s (a @ b) =
     (case run_items L s a of (Some e, s') \<Rightarrow> (Some e, s') | (None, s') \<Rightarrow> run_items L s' b)"
proof (induction a arbitrary: s)
  case Nil
  then show ?case by simp
next
  case (Cons x a)
  show ?case
  proof (cases x)
    case (Op v)
    then show ?thesis using Cons by (simp split: prod.splits option.splits)
  next
    case (Push d)
    then show ?thesis using Cons by simp
  qed
qed

lemma snd_execute: "snd (execute L s a) = snd (run_items L s a)"
  by (simp add: execute_def split: prod.splits option.splits)

lemma execute_append:
  "fst (run_items L s a) = None \<Longrightarrow> execute L (snd (execute L s a)) b = execute L s (a @ b)"
proof -
  assume "fst (run_items L s a) = None"
  then obtain s1 where r: "run_items L s a = (None, s1)" by (cases "run_items L s a") auto
  show ?thesis by (simp add: execute_def run_items_append r)
qed

lemma run_items_pushes: "run_items L s (map Push ds) = (None, s\<lparr>stack := stack s @ ds\<rparr>)"
  by (induction ds arbitrary: s) (simp_all add: push_def)

text \<open>
  C7 (counterexample).  On a fresh interpreter the empty script fails, because the stack
  is empty.  After a first \<open>execute\<close> that pushed one element, the same empty script
  succeeds on the same interpreter: the second call starts from the stack the first call
  left, not from an empty one.
\<close>

theorem second_execute_sees_leftover_stack:
  "\<forall>L. \<not> fst (execute L (new_interpreter empty_context 0) []) \<and>
       stack (snd (execute L (new_interpreter empty_context 0) [Push [1]])) = [[1]] \<and>
       fst (execute L (snd (execute L (new_interpreter empty_context 0) [Push [1]])) [])"
  by (simp add: execute_def push_def top_of_def cast_to_bool_def new_interpreter_def)

text \<open>
  C7 (amended).  The two stacks are made empty when the interpreter is constructed, not by
  \<open>execute\<close>.  A second \<open>execute\<close> call on the same interpreter starts from the
  stacks the first call left: when the first script raised no error, running a second
  script afterwards gives the result and the interpreter that the concatenation of both
  scripts gives on the original interpreter.
\<close>

theorem execute_continues_from_left_stacks:
  "stack (new_interpreter c now) = [] \<and> alt_stack (new_interpreter c now) = [] \<and>
   (fst (run_items L s a) = None \<longrightarrow>
      execute L (snd (execute L s a)) b = execute L s (a @ b))"
  by (simp add: new_interpreter_def execute_append)

theorem execute_continues_from_left_stacks_witness:
  "\<forall>L. fst (run_items L (new_interpreter empty_context 0) [Push [1]]) = None \<and>
       execute L (snd (execute L (new_interpreter empty_context 0) [Push [1]])) [Op OP_DUP]
         = execute L (new_interpreter empty_context 0) ([Push [1]] @ [Op OP_DUP]) \<and>
       fst (execute L (snd (execute L (new_interpreter empty_context 0) [Push [1]])) [Op OP_DUP])"
proof
  fix L
  have r: "fst (run_items L (new_interpreter empty_context 0) [Push [1]]) = None" by simp
  have t: "fst (execute L (new_interpreter empty_context 0) ([Push [1]] @ [Op OP_DUP]))"
    by (simp add: execute_def execute_opcode_def ok_def push_def top_of_def cast_to_bool_def
          new_interpreter_def)
  show "fst (run_items L (new_interpreter empty_context 0) [Push [1]]) = None \<and>
       execute L (snd (execute L (new_interpreter empty_context 0) [Push [1]])) [Op OP_DUP]
         = execute L (new_interpreter empty_context 0) ([Push [1]] @ [Op OP_DUP]) \<and>
       fst (execute L (snd (execute L (new_interpreter empty_context 0) [Push [1]])) [Op OP_DUP])"
    using r t
      execute_continues_from_left_stacks[of empty_context 0 L "new_interpreter empty_context 0"
        "[Push [1]]" "[Op OP_DUP]"]
    by simp
qed

text \<open>
  C8 (the code at the failing input).  The item \<open>0x01\<close>, an opcode outside the
  enumeration, passes the range test \<open>OP_0 \<le> opcode \<le> OP_16\<close> of the constants
  branch: the interpreter pushes the encoding of \<open>0x01 - 0x51 + 1 = -79\<close>, the byte
  \<open>0xcf\<close>, and \<open>execute\<close> returns true.
\<close>

lemma encode_num_minus_79: "encode_num (- 79) = [0xcf]"
  by code_simp

theorem bare_push_byte_runs_as_constant:
  "\<forall>L. execute L (new_interpreter empty_context 0) [Op 0x01]
        = (True, (new_interpreter empty_context 0)\<lparr>stack := [[0xcf]]\<rparr>)"
  by (simp add: execute_def execute_opcode_def ok_def push_def top_of_def cast_to_bool_def
        new_interpreter_def encode_num_minus_79)

section \<open>Verification of multisig execution\<close>

lemma multisig_loop_all_valid:
  "\<forall>pk\<in>set pks. length pk = 32 \<Longrightarrow> \<forall>s\<in>set sigs. length s = 32 \<Longrightarrow> i \<le> length sigs \<Longrightarrow>
   multisig_loop L txd pks sigs i = min (i + length pks) (length sigs)"
proof (induction pks arbitrary: i)
  case Nil
  then show ?case by simp
next
  case (Cons pk pks)
  show ?case
  proof (cases "i \<ge> length sigs")
    case True
    then show ?thesis using Cons.prems by simp
  next
    case False
    then have "sigs ! i \<in> set sigs" by simp
    then have v: "verify_signature L pk txd (sigs ! i)"
      using Cons.prems by (simp add: verify_signature_def)
    have "multisig_loop L txd pks sigs (i + 1) = min (i + 1 + length pks) (length sigs)"
      using Cons.prems False by (intro Cons.IH) simp_all
    then show ?thesis using False v by simp
  qed
qed

lemma multisig_loop_stuck:
  "j < length sigs \<Longrightarrow> length (sigs ! j) \<noteq> 32 \<Longrightarrow> i \<le> j \<Longrightarrow>
   multisig_loop L txd pks sigs i \<le> j"
proof (induction pks arbitrary: i)
  case Nil
  then show ?case by simp
next
  case (Cons pk pks)
  show ?case
  proof (cases "verify_signature L pk txd (sigs ! i)")
    case True
    then have "i \<noteq> j" using Cons.prems by (auto simp: verify_signature_def)
    then have "i + 1 \<le> j" using Cons.prems by simp
    then have "multisig_loop L txd pks sigs (i + 1) \<le> j" using Cons.prems by (intro Cons.IH)
    then show ?thesis using True Cons.prems by simp
  next
    case False
    have "multisig_loop L txd pks sigs i \<le> j" using Cons.prems by (intro Cons.IH)
    then show ?thesis using False Cons.prems by simp
  qed
qed

lemma op_small_constant:
  "1 \<le> k \<Longrightarrow> k \<le> 16 \<Longrightarrow> execute_opcode L s (k + OP_1 - 1) = (None, push (encode_num k) s)"
  by (simp add: execute_opcode_def ok_def)

lemma checkmultisig_on_template_stack:
  assumes st: "stack s = ([[]] @ sigs) @ [encode_num m] @ pks @ [encode_num (int (length pks))]"
    and m: "1 \<le> m" and k: "int (length sigs) \<le> m"
  shows "op_checkmultisig L s =
     (if int (length sigs) = m
      then (None, s\<lparr>stack := [if int (multisig_loop L (get_tx_data s) pks (rev sigs) 0) = m
                                 then [0x01] else []]\<rparr>)
      else (Some (ScriptError (if int (length sigs) + 1 < m
                               then ''OP_CHECKMULTISIG: not enough signatures''
                               else ''OP_CHECKMULTISIG: stack underflow (bug)'')),
            s\<lparr>stack := (if int (length sigs) + 1 < m then [[]] @ sigs else [])\<rparr>))"
proof -
  let ?n = "int (length pks)"
  define s1 where "s1 = pop s"
  have s1: "stack s1 = ([[]] @ sigs) @ [encode_num m] @ pks"
    using st by (simp add: s1_def pop_def butlast_append)
  have t0: "decode_num (top_of s) = ?n" using st by (simp add: top_of_def decode_encode)
  define s2 where "s2 = snd (pop_many (length pks) s1)"
  have pm1: "pop_many (length pks) s1 = (rev pks, s2)"
    using s1 by (simp add: s2_def pop_many_def)
  have s2: "stack s2 = ([[]] @ sigs) @ [encode_num m]"
    using s1 by (simp add: s2_def pop_many_def)
  have t2: "decode_num (top_of s2) = m" using s2 by (simp add: top_of_def decode_encode)
  define s3 where "s3 = pop s2"
  have s3: "stack s3 = [[]] @ sigs" using s2 by (simp add: s3_def pop_def butlast_append)
  define s4 where "s4 = snd (pop_many (nat m) s3)"
  have pm2: "pop_many (nat m) s3 = (take (nat m) (rev sigs @ [[]]), s4)"
    using s3 by (simp add: s4_def pop_many_def)
  have s4: "stack s4 = take (Suc (length sigs) - nat m) ([[]] @ sigs)"
    using s3 by (simp add: s4_def pop_many_def)
  have ctx: "get_tx_data (pop s4) = get_tx_data s"
    by (simp add: get_tx_data_def pop_def s4_def pop_many_def s3_def s2_def s1_def)
  have ne: "\<not> length (stack s) < 1" "\<not> int (length (stack s1)) < int (length pks)"
           "\<not> length (stack s2) < 1"
    using st s1 s2 by simp_all
  have unfold: "op_checkmultisig L s =
     (if int (length (stack s3)) < m then raise ''OP_CHECKMULTISIG: not enough signatures'' s3
      else if length (stack s4) < 1 then raise ''OP_CHECKMULTISIG: stack underflow (bug)'' s4
      else ok (push (if int (multisig_loop L (get_tx_data (pop s4)) (rev (rev pks))
                           (take (nat m) (rev sigs @ [[]])) 0) = m then [0x01] else []) (pop s4)))"
    unfolding op_checkmultisig_def Let_def t0 s1_def[symmetric] nat_int pm1 prod.case t2
      s3_def[symmetric] pm2
    using ne by (simp only: if_False)
  consider (eq) "int (length sigs) = m" | (one) "int (length sigs) + 1 = m"
    | (few) "int (length sigs) + 1 < m"
    using k by linarith
  then show ?thesis
  proof cases
    case eq
    then have nm: "nat m = length sigs" by simp
    have e4: "stack s4 = [[]]" using s4 by (simp add: nm)
    have p4: "pop s4 = s\<lparr>stack := []\<rparr>"
      by (simp add: pop_def e4) (simp add: s4_def pop_many_def s3_def s2_def s1_def pop_def)
    show ?thesis
      using eq by (simp add: unfold s3 e4 ok_def push_def nm p4 get_tx_data_def)
  next
    case one
    then have nm: "nat m = Suc (length sigs)" by simp
    have e4: "stack s4 = []" using s4 by (simp add: nm)
    have p4: "s4 = s\<lparr>stack := []\<rparr>"
      using e4 by (simp add: s4_def pop_many_def s3_def s2_def s1_def pop_def)
    show ?thesis
      using one by (simp add: unfold s3 e4 raise_def p4)
  next
    case few
    have p3: "s3 = s\<lparr>stack := [[]] @ sigs\<rparr>"
      using s3 by (simp add: s3_def s2_def pop_many_def s1_def pop_def)
    show ?thesis
      using few by (simp add: unfold s3 raise_def p3)
  qed
qed


lemma run_then:
  "run_items L s a = (None, s1) \<Longrightarrow> run_items L s1 b = r \<Longrightarrow> run_items L s (a @ b) = r"
  by (simp add: run_items_append)

lemma run_small_constant:
  "1 \<le> k \<Longrightarrow> k \<le> 16 \<Longrightarrow>
   run_items L s [Op (k + OP_1 - 1)] = (None, s\<lparr>stack := stack s @ [encode_num k]\<rparr>)"
  using op_small_constant[of k L s] by (simp add: push_def)

lemma run_multisig_prefix:
  assumes e: "stack s = []" and m: "1 \<le> m" "m \<le> 16"
    and n: "1 \<le> int (length pks)" "int (length pks) \<le> 16"
  shows "run_items L s (((([Op OP_0] @ map Push sigs) @ [Op (m + OP_1 - 1)]) @ map Push pks)
                         @ [Op (int (length pks) + OP_1 - 1)])
         = (None, s\<lparr>stack := ([[]] @ sigs) @ [encode_num m] @ pks
                                  @ [encode_num (int (length pks))]\<rparr>)"
proof -
  have a: "run_items L s [Op OP_0] = (None, s\<lparr>stack := [[]]\<rparr>)"
    using e by (simp add: execute_opcode_def ok_def push_def)
  have b: "run_items L s ([Op OP_0] @ map Push sigs) = (None, s\<lparr>stack := [[]] @ sigs\<rparr>)"
    by (rule run_then[OF a]) (simp add: run_items_pushes)
  have c: "run_items L s (([Op OP_0] @ map Push sigs) @ [Op (m + OP_1 - 1)])
           = (None, s\<lparr>stack := ([[]] @ sigs) @ [encode_num m]\<rparr>)"
    by (rule run_then[OF b]) (use run_small_constant[OF m, of L] in simp)
  have d: "run_items L s ((([Op OP_0] @ map Push sigs) @ [Op (m + OP_1 - 1)]) @ map Push pks)
           = (None, s\<lparr>stack := ([[]] @ sigs) @ [encode_num m] @ pks\<rparr>)"
    by (rule run_then[OF c]) (simp add: run_items_pushes)
  show ?thesis
    by (rule run_then[OF d]) (use run_small_constant[OF n, of L] in simp)
qed

lemma multisig_script_shape:
  "multisig_script_sig sigs @ multisig_script_pubkey m pks =
     (((([Op OP_0] @ map Push sigs) @ [Op (m + OP_1 - 1)]) @ map Push pks)
        @ [Op (int (length pks) + OP_1 - 1)]) @ [Op OP_CHECKMULTISIG]"
  by (simp add: multisig_script_sig_def multisig_script_pubkey_def)

lemma multisig_vm_result:
  assumes e: "stack s = []"
    and m: "1 \<le> m" "m \<le> int (length pks)" and n: "length pks \<le> 16"
    and pk: "\<forall>pk\<in>set pks. length pk = 32" and k: "int (length sigs) \<le> m"
  shows "fst (execute L s (multisig_script_sig sigs @ multisig_script_pubkey m pks))
         = (int (length sigs) = m \<and> (\<forall>sg\<in>set sigs. length sg = 32))"
proof -
  let ?pre = "(((([Op OP_0] @ map Push sigs) @ [Op (m + OP_1 - 1)]) @ map Push pks)
                 @ [Op (int (length pks) + OP_1 - 1)])"
  let ?s1 = "s\<lparr>stack := ([[]] @ sigs) @ [encode_num m] @ pks
                                  @ [encode_num (int (length pks))]\<rparr>"
  have m16: "m \<le> 16" using m n by linarith
  have n1: "1 \<le> int (length pks)" using m by linarith
  have pre: "run_items L s ?pre = (None, ?s1)"
    using run_multisig_prefix[OF e m(1) m16 n1] n by simp
  have st: "stack ?s1 = ([[]] @ sigs) @ [encode_num m] @ pks @ [encode_num (int (length pks))]"
    by simp
  have run: "run_items L s (?pre @ [Op OP_CHECKMULTISIG]) =
      (case op_checkmultisig L ?s1 of (Some e, s') \<Rightarrow> (Some e, s') | (None, s') \<Rightarrow> (None, s'))"
    by (rule run_then[OF pre]) (simp add: execute_opcode_def split: prod.splits option.splits)
  note cm = checkmultisig_on_template_stack[OF st m(1) k, of L]
  show ?thesis
  proof (cases "int (length sigs) = m")
    case False
    then show ?thesis
      by (simp only: multisig_script_shape execute_def run cm) simp
  next
    case True
    then have len: "length (rev sigs) = nat m" by simp
    show ?thesis
    proof (cases "\<forall>sg\<in>set sigs. length sg = 32")
      case all: True
      then have "\<forall>sg\<in>set (rev sigs). length sg = 32" by simp
      then have "multisig_loop L (get_tx_data ?s1) pks (rev sigs) 0
                 = min (0 + length pks) (length (rev sigs))"
        using pk by (intro multisig_loop_all_valid) simp_all
      then have "int (multisig_loop L (get_tx_data ?s1) pks (rev sigs) 0) = m"
        using m True by simp
      then show ?thesis using True all
        by (simp only: multisig_script_shape execute_def run cm)
           (simp add: cast_to_bool_def top_of_def)
    next
      case some: False
      then obtain sg where "sg \<in> set (rev sigs)" "length sg \<noteq> 32" by auto
      then obtain j where j: "j < length (rev sigs)" "length (rev sigs ! j) \<noteq> 32"
        by (metis in_set_conv_nth)
      have "multisig_loop L (get_tx_data ?s1) pks (rev sigs) 0 \<le> j"
        using j by (intro multisig_loop_stuck) simp_all
      then have "int (multisig_loop L (get_tx_data ?s1) pks (rev sigs) 0) \<noteq> m"
        using j True by simp
      then show ?thesis using True some
        by (simp only: multisig_script_shape execute_def run cm)
           (simp add: cast_to_bool_def top_of_def)
    qed
  qed
qed

lemma run_multisig_script_sig:
  "stack s = [] \<Longrightarrow> fst (run_items L s (multisig_script_sig sigs)) = None"
proof -
  assume e: "stack s = []"
  have a: "run_items L s [Op OP_0] = (None, s\<lparr>stack := [[]]\<rparr>)"
    using e by (simp add: execute_opcode_def ok_def push_def)
  have "run_items L s ([Op OP_0] @ map Push sigs) = (None, s\<lparr>stack := [[]] @ sigs\<rparr>)"
    by (rule run_then[OF a]) (simp add: run_items_pushes)
  then show ?thesis by (simp only: multisig_script_sig_def fst_conv)
qed

text \<open>
  C6 (counterexample).  A 2-of-3 lock over \<open>(pub1, pub2, pub3)\<close> run after the unlock
  \<open>(OP_0, sig2, sig1)\<close>, the signatures out of ascending order: the VM returns true.
  Keys and signatures are 32-byte strings (a SHA-256 digest and an HMAC-SHA256 digest);
  the verdict does not depend on their content.
\<close>

theorem multisig_out_of_order_succeeds:
  "\<forall>L. fst (execute L (new_interpreter empty_context 0)
          (multisig_script_sig [replicate 32 0xa2, replicate 32 0xa1] @
           multisig_script_pubkey 2 [replicate 32 0x01, replicate 32 0x02, replicate 32 0x03]))"
proof
  fix L
  have e: "stack (new_interpreter empty_context 0) = []" by (simp add: new_interpreter_def)
  show "fst (execute L (new_interpreter empty_context 0)
          (multisig_script_sig [replicate 32 0xa2, replicate 32 0xa1] @
           multisig_script_pubkey 2 [replicate 32 0x01, replicate 32 0x02, replicate 32 0x03]))"
    by (subst multisig_vm_result[OF e]) simp_all
qed

text \<open>
  C6 (amended).  Let the lock be \<open>multisig_script_pubkey m pubkeys\<close> with
  \<open>1 \<le> m \<le> N \<le> 16\<close> and 32-byte public keys, and let the unlock carry at most
  \<open>m\<close> signatures.  Run on a fresh interpreter, either as one concatenated script or as
  two \<open>execute\<close> calls on the same interpreter, the VM returns true exactly when the
  unlock carries \<open>m\<close> signatures and each of them is 32 bytes long.  So \<open>m\<close>
  signatures of 32 bytes succeed in every order, and fewer than \<open>m\<close> signatures, or
  \<open>m\<close> signatures one of which the verifier rejects, fail.
\<close>

theorem multisig_unlock_then_lock:
  assumes "1 \<le> m" and "m \<le> int (length pubkeys)" and "length pubkeys \<le> 16"
    and "\<forall>pk\<in>set pubkeys. length pk = 32" and "int (length sigs) \<le> m"
  shows "fst (execute L (new_interpreter c now)
                (multisig_script_sig sigs @ multisig_script_pubkey m pubkeys))
           = (int (length sigs) = m \<and> (\<forall>sg\<in>set sigs. length sg = 32)) \<and>
         fst (execute L (snd (execute L (new_interpreter c now) (multisig_script_sig sigs)))
                (multisig_script_pubkey m pubkeys))
           = (int (length sigs) = m \<and> (\<forall>sg\<in>set sigs. length sg = 32))"
proof -
  have e: "stack (new_interpreter c now) = []" by (simp add: new_interpreter_def)
  have one: "fst (execute L (new_interpreter c now)
                (multisig_script_sig sigs @ multisig_script_pubkey m pubkeys))
           = (int (length sigs) = m \<and> (\<forall>sg\<in>set sigs. length sg = 32))"
    using assms by (intro multisig_vm_result[OF e])
  have two: "execute L (snd (execute L (new_interpreter c now) (multisig_script_sig sigs)))
                (multisig_script_pubkey m pubkeys)
             = execute L (new_interpreter c now)
                (multisig_script_sig sigs @ multisig_script_pubkey m pubkeys)"
    by (rule execute_append) (rule run_multisig_script_sig[OF e])
  show ?thesis by (simp only: two one)
qed

theorem multisig_unlock_then_lock_witness:
  "\<forall>L. fst (execute L (new_interpreter empty_context 0)
          (multisig_script_sig [replicate 32 0xa1, replicate 32 0xa2] @
           multisig_script_pubkey 2 [replicate 32 0x01, replicate 32 0x02, replicate 32 0x03])) \<and>
       \<not> fst (execute L (new_interpreter empty_context 0)
          (multisig_script_sig [replicate 32 0xa1] @
           multisig_script_pubkey 2 [replicate 32 0x01, replicate 32 0x02, replicate 32 0x03])) \<and>
       \<not> fst (execute L (snd (execute L (new_interpreter empty_context 0)
                                  (multisig_script_sig [replicate 32 0xa1, replicate 31 0xa2])))
          (multisig_script_pubkey 2 [replicate 32 0x01, replicate 32 0x02, replicate 32 0x03]))"
proof (intro allI conjI)
  fix L
  let ?pks = "[replicate 32 0x01, replicate 32 0x02, replicate 32 (0x03::byte)]"
  have h: "(1::int) \<le> 2" "2 \<le> int (length ?pks)" "length ?pks \<le> 16"
    "\<forall>pk\<in>set ?pks. length pk = 32"
    by simp_all
  show "fst (execute L (new_interpreter empty_context 0)
          (multisig_script_sig [replicate 32 0xa1, replicate 32 0xa2] @
           multisig_script_pubkey 2 ?pks))"
    using multisig_unlock_then_lock[OF h, of "[replicate 32 0xa1, replicate 32 0xa2]" L
        empty_context 0]
    by simp
  show "\<not> fst (execute L (new_interpreter empty_context 0)
          (multisig_script_sig [replicate 32 0xa1] @ multisig_script_pubkey 2 ?pks))"
    using multisig_unlock_then_lock[OF h, of "[replicate 32 0xa1]" L empty_context 0]
    by simp
  show "\<not> fst (execute L (snd (execute L (new_interpreter empty_context 0)
                                  (multisig_script_sig [replicate 32 0xa1, replicate 31 0xa2])))
          (multisig_script_pubkey 2 ?pks))"
    using multisig_unlock_then_lock[OF h, of "[replicate 32 0xa1, replicate 31 0xa2]" L
        empty_context 0]
    by simp
qed

section \<open>Verification of the wire format\<close>

lemma uint_byte: "0 \<le> v \<Longrightarrow> v < 256 \<Longrightarrow> uint (word_of_int v :: byte) = v"
  by (simp add: uint_word_of_int)

lemma unat_byte: "n < 256 \<Longrightarrow> unat (word_of_nat n :: byte) = n"
  by (simp add: unat_of_nat)

lemma uint_byte_nat: "n < 256 \<Longrightarrow> uint (word_of_nat n :: byte) = int n"
  using unat_byte[of n] by (simp add: uint_nat)

lemma des_direct:
  "uint b < 0x4c \<Longrightarrow> deserialize_loop (b # rest) acc
     = deserialize_loop (drop (unat b) rest) (acc @ [Push (take (unat b) rest)])"
  by simp

lemma des_pushdata1:
  "deserialize_loop (0x4c # len # rest) acc
     = deserialize_loop (drop (unat len) rest) (acc @ [Push (take (unat len) rest)])"
  by simp

lemma des_pushdata2:
  "deserialize_loop (0x4d # lo # hi # rest) acc
     = deserialize_loop (drop (unat lo + 256 * unat hi) rest)
         (acc @ [Push (take (unat lo + 256 * unat hi) rest)])"
  by (simp add: Let_def)

lemma des_opcode:
  "0x4e \<le> uint b \<Longrightarrow> deserialize_loop (b # rest) acc = deserialize_loop rest (acc @ [Op (uint b)])"
  by simp

lemma deserialize_item:
  assumes "wf_item it"
  shows "\<exists>chunk. serialize_item it = Inr chunk \<and>
           (\<forall>rest acc. deserialize_loop (chunk @ rest) acc = deserialize_loop rest (acc @ [canon it]))"
proof (cases it)
  case (Op v)
  show ?thesis
  proof (cases "v = 0")
    case True
    have "deserialize_loop (0 # rest) acc = deserialize_loop rest (acc @ [Push []])" for rest acc
      using des_direct[of 0 rest acc] by simp
    then show ?thesis using True by (simp add: Op serialize_item_def bytes_of_int_def canon_def)
  next
    case False
    then have r: "0x4e \<le> v" "v \<le> 0xff" using assms by (simp_all add: wf_item_def Op)
    then have u: "uint (word_of_int v :: byte) = v" by (intro uint_byte) simp_all
    have "deserialize_loop (word_of_int v # rest) acc = deserialize_loop rest (acc @ [Op v])"
      for rest acc
      using des_opcode[of "word_of_int v" rest acc] r by (simp only: u)
    then show ?thesis using r False by (simp add: Op serialize_item_def bytes_of_int_def canon_def)
  qed
next
  case (Push d)
  then have len: "length d \<le> 65535" using assms by (simp add: wf_item_def)
  consider "length d < 76" | "76 \<le> length d" "length d \<le> 255" | "256 \<le> length d" by linarith
  then show ?thesis
  proof cases
    case 1
    have n: "unat (word_of_nat (length d) :: byte) = length d"
      using 1 by (intro unat_byte) simp
    have u: "uint (word_of_nat (length d) :: byte) = int (length d)"
      using 1 by (intro uint_byte_nat) simp
    have "deserialize_loop (word_of_nat (length d) # d @ rest) acc
          = deserialize_loop rest (acc @ [Push d])" for rest acc
      using des_direct[of "word_of_nat (length d)" "d @ rest" acc] 1 by (simp only: u n) simp
    then show ?thesis using 1 by (simp add: Push serialize_item_def bytes_of_int_def canon_def)
  next
    case 2
    have n: "unat (word_of_nat (length d) :: byte) = length d"
      using 2 by (intro unat_byte) simp
    have "deserialize_loop (0x4c # word_of_nat (length d) # d @ rest) acc
          = deserialize_loop rest (acc @ [Push d])" for rest acc
      by (simp only: des_pushdata1 n) simp
    then show ?thesis using 2 by (simp add: Push serialize_item_def canon_def)
  next
    case 3
    have lo: "unat (word_of_nat (length d mod 256) :: byte) = length d mod 256"
      by (intro unat_byte) simp
    have hi: "unat (word_of_nat (length d div 256) :: byte) = length d div 256"
      using len by (intro unat_byte) simp
    have "deserialize_loop (0x4d # word_of_nat (length d mod 256) # word_of_nat (length d div 256)
                              # d @ rest) acc
          = deserialize_loop rest (acc @ [Push d])" for rest acc
      by (simp only: des_pushdata2 lo hi) simp
    moreover have "(word_of_int (int (length d) mod 256) :: byte) = word_of_nat (length d mod 256)"
    proof -
      have "int (length d) mod 256 = int (length d mod 256)" by (simp add: zmod_int)
      then show ?thesis by (simp only: of_int_of_nat_eq)
    qed
    moreover have "(word_of_int (int (length d) div 256) :: byte) = word_of_nat (length d div 256)"
    proof -
      have "int (length d) div 256 = int (length d div 256)" by (simp add: zdiv_int)
      then show ?thesis by (simp only: of_int_of_nat_eq)
    qed
    ultimately show ?thesis using 3 len
      by (simp add: Push serialize_item_def pack_H_def canon_def Let_def
            del: deserialize_loop.simps)
  qed
qed

lemma round_trip_loop:
  "\<forall>it\<in>set s. wf_item it \<Longrightarrow>
   \<exists>bs. serialize s = Inr bs \<and> (\<forall>acc. deserialize_loop bs acc = Inr (acc @ map canon s))"
proof (induction s)
  case Nil
  then show ?case by simp
next
  case (Cons it s)
  from Cons.prems have "wf_item it" by simp
  from deserialize_item[OF this] obtain chunk where
    c: "serialize_item it = Inr chunk"
       "\<And>rest acc. deserialize_loop (chunk @ rest) acc = deserialize_loop rest (acc @ [canon it])"
    by blast
  from Cons obtain bs where
    b: "serialize s = Inr bs" "\<And>acc. deserialize_loop bs acc = Inr (acc @ map canon s)"
    by auto
  show ?case by (simp add: c b)
qed


lemma encode_loop_length: "0 \<le> n \<Longrightarrow> n < 2 ^ (8 * k) \<Longrightarrow> length (encode_loop n []) \<le> k"
proof (induction k arbitrary: n)
  case 0
  then have "n = 0" by simp
  then show ?case by (subst encode_loop_unfold) simp
next
  case (Suc k)
  show ?case
  proof (cases "n > 0")
    case True
    have "n < 256 * 2 ^ (8 * k)" using Suc.prems by (simp add: power_add)
    then have "n div 256 < 2 ^ (8 * k)" by linarith
    moreover have "0 \<le> n div 256" using True by simp
    ultimately have "length (encode_loop (n div 256) []) \<le> k" by (intro Suc.IH)
    then show ?thesis using True by (subst encode_loop_unfold) (simp add: drop_bit_eq_div)
  next
    case False
    then show ?thesis by (subst encode_loop_unfold) simp
  qed
qed

lemma encode_num_length: "\<bar>n\<bar> < 2 ^ 63 \<Longrightarrow> length (encode_num n) \<le> 9"
proof -
  assume b: "\<bar>n\<bar> < 2 ^ 63"
  have "length (encode_loop \<bar>n\<bar> []) \<le> 8"
    using b by (intro encode_loop_length) simp_all
  then show ?thesis by (cases "n < 0") (auto simp: encode_num_def Let_def)
qed

lemma wf_templates:
  assumes "length h \<le> 0xffff"
  shows "\<forall>it\<in>set (p2pkh_script_pubkey h). wf_item it"
    and "\<forall>it\<in>set (p2sh_script_pubkey h). wf_item it"
    and "\<forall>it\<in>set (p2wpkh_script_pubkey h). wf_item it"
    and "\<forall>it\<in>set (p2wsh_script_pubkey h). wf_item it"
    and "\<bar>t\<bar> < 2 ^ 63 \<Longrightarrow> \<forall>it\<in>set (timelock_script_cltv t h). wf_item it"
    and "\<bar>t\<bar> < 2 ^ 63 \<Longrightarrow> \<forall>it\<in>set (timelock_script_csv t h). wf_item it"
  using assms encode_num_length[of t]
  by (simp_all add: p2pkh_script_pubkey_def p2sh_script_pubkey_def p2wpkh_script_pubkey_def
        p2wsh_script_pubkey_def timelock_script_cltv_def timelock_script_csv_def wf_item_def)

lemma wf_htlc:
  assumes "length hash_lock \<le> 0xffff" "length r \<le> 0xffff" "length sd \<le> 0xffff"
    "\<bar>t\<bar> < 2 ^ 63"
  shows "\<forall>it\<in>set (htlc_script hash_lock t r sd). wf_item it"
  using assms encode_num_length[of t] by (simp add: htlc_script_def wf_item_def)

lemma wf_multisig:
  assumes "\<forall>d\<in>set ds. length d \<le> 0xffff"
  shows "1 \<le> m \<Longrightarrow> m \<le> 16 \<Longrightarrow> 1 \<le> length ds \<Longrightarrow> length ds \<le> 16 \<Longrightarrow>
           \<forall>it\<in>set (multisig_script_pubkey m ds). wf_item it"
    and "\<forall>it\<in>set (multisig_script_sig ds). wf_item it"
  using assms by (auto simp: multisig_script_pubkey_def multisig_script_sig_def wf_item_def)

lemma canon_id: "Op OP_0 \<notin> set s \<Longrightarrow> map canon s = s"
  by (induction s) (auto simp: canon_def split: item.splits)

text \<open>
  C2 (counterexample).  The P2WPKH template with a 20-byte hash serializes to
  \<open>00 14 <hash>\<close>; deserializing these bytes gives the empty payload where the
  script had the opcode item \<open>OP_0\<close>, so the script that comes back differs from the
  one that was serialized.
\<close>

theorem p2wpkh_does_not_round_trip:
  "serialize (p2wpkh_script_pubkey (replicate 20 0xab)) = Inr (0x00 # 0x14 # replicate 20 0xab) \<and>
   deserialize (0x00 # 0x14 # replicate 20 0xab) = Inr [Push [], Push (replicate 20 0xab)] \<and>
   [Push [], Push (replicate 20 0xab)] \<noteq> p2wpkh_script_pubkey (replicate 20 0xab)"
  by (simp add: p2wpkh_script_pubkey_def serialize_item_def bytes_of_int_def deserialize_def)

text \<open>
  C2 (amended).  A script whose opcode items are \<open>OP_0\<close> or bytes from \<open>0x4e\<close> to
  \<open>0xff\<close> and whose payloads have at most 65535 bytes serializes without error, and
  deserializing the result gives the script back item for item, except that every
  \<open>OP_0\<close> item comes back as the empty push payload; a script without \<open>OP_0\<close>
  comes back unchanged.  By \<open>wf_templates\<close>, \<open>wf_htlc\<close> and \<open>wf_multisig\<close> every
  template script is such a script.
\<close>

theorem deserialize_serialize:
  assumes "\<forall>it\<in>set s. wf_item it"
  shows "(\<exists>bs. serialize s = Inr bs \<and> deserialize bs = Inr (map canon s)) \<and>
         (Op OP_0 \<notin> set s \<longrightarrow> map canon s = s)"
proof -
  from round_trip_loop[OF assms] obtain bs where
    "serialize s = Inr bs" "\<And>acc. deserialize_loop bs acc = Inr (acc @ map canon s)"
    by blast
  then have "serialize s = Inr bs \<and> deserialize bs = Inr (map canon s)"
    by (simp add: deserialize_def)
  then show ?thesis using canon_id[of s] by blast
qed

theorem deserialize_serialize_witness:
  "(\<exists>bs. serialize (p2pkh_script_pubkey (replicate 20 0xab)) = Inr bs \<and>
         deserialize bs = Inr (p2pkh_script_pubkey (replicate 20 0xab))) \<and>
   (\<exists>bs. serialize (multisig_script_sig [replicate 32 0xa1]) = Inr bs \<and>
         deserialize bs = Inr [Push [], Push (replicate 32 0xa1)])"
proof -
  have w1: "\<forall>it\<in>set (p2pkh_script_pubkey (replicate 20 0xab)). wf_item it"
    by (rule wf_templates) simp
  have n1: "Op OP_0 \<notin> set (p2pkh_script_pubkey (replicate 20 0xab))"
    by (simp add: p2pkh_script_pubkey_def)
  have w2: "\<forall>it\<in>set (multisig_script_sig [replicate 32 0xa1]). wf_item it"
    by (rule wf_multisig) simp
  have c2: "map canon (multisig_script_sig [replicate 32 0xa1]) = [Push [], Push (replicate 32 0xa1)]"
    by (simp add: multisig_script_sig_def canon_def)
  from deserialize_serialize[OF w1] n1
  have a: "\<exists>bs. serialize (p2pkh_script_pubkey (replicate 20 0xab)) = Inr bs \<and>
         deserialize bs = Inr (p2pkh_script_pubkey (replicate 20 0xab))"
    by metis
  from deserialize_serialize[OF w2]
  have b: "\<exists>bs. serialize (multisig_script_sig [replicate 32 0xa1]) = Inr bs \<and>
         deserialize bs = Inr [Push [], Push (replicate 32 0xa1)]"
    by (simp only: c2)
  from a b show ?thesis by (rule conjI)
qed

section \<open>Verification of the UTXO update\<close>

lemma total_delete:
  "distinct (map fst u) \<Longrightarrow> total_amount (AList.delete k u) = total_amount u - amt u k"
proof (induction u)
  case Nil
  then show ?case by (simp add: total_amount_def amt_def)
next
  case (Cons a u)
  obtain k' v' where a: "a = (k', v')" by (cases a)
  show ?case
  proof (cases "k' = k")
    case True
    then have "k \<notin> fst ` set u" using Cons.prems a by auto
    then have "AList.delete k u = u" by (simp add: delete_id)
    then show ?thesis using True a by (simp add: total_amount_def amt_def)
  next
    case False
    then show ?thesis using Cons a by (simp add: total_amount_def amt_def)
  qed
qed

lemma amt_absent: "k \<notin> fst ` set u \<Longrightarrow> amt u k = 0"
proof -
  assume "k \<notin> fst ` set u"
  then have "map_of u k = None" by (simp add: map_of_eq_None_iff)
  then show ?thesis by (simp add: amt_def)
qed

lemma total_remove: "distinct (map fst u) \<Longrightarrow> total_amount (remove_utxo u h i) = total_amount u - amt u (h, i)"
  by (simp add: remove_utxo_def total_delete amt_absent)

lemma remove_eq_delete: "remove_utxo u h i = AList.delete (h, i) u"
  by (simp add: remove_utxo_def delete_id)

lemma distinct_remove: "distinct (map fst u) \<Longrightarrow> distinct (map fst (remove_utxo u h i))"
  by (simp add: remove_eq_delete distinct_delete)

lemma keys_remove: "fst ` set (remove_utxo u h i) = fst ` set u - {(h, i)}"
proof -
  have "fst ` set (AList.delete (h, i) u) = set (map fst (AList.delete (h, i) u))" by simp
  also have "\<dots> = set (removeAll (h, i) (map fst u))" by (simp only: delete_keys)
  also have "\<dots> = fst ` set u - {(h, i)}" by simp
  finally show ?thesis by (simp only: remove_eq_delete)
qed

lemma amt_remove:
  "distinct (map fst u) \<Longrightarrow> amt (remove_utxo u h i) k = (if k = (h, i) then 0 else amt u k)"
  by (simp add: remove_eq_delete amt_def delete_conv')

lemma remove_all_props:
  "distinct (map fst u) \<Longrightarrow>
     distinct (map fst (remove_all ks u)) \<and>
     fst ` set (remove_all ks u) = fst ` set u - set ks \<and>
     total_amount (remove_all ks u) = total_amount u - (\<Sum>k\<in>set ks. amt u k)"
proof (induction ks arbitrary: u)
  case Nil
  then show ?case by (simp add: remove_all_def)
next
  case (Cons k ks)
  let ?u = "remove_utxo u (fst k) (snd k)"
  have d: "distinct (map fst ?u)" using Cons.prems by (rule distinct_remove)
  note ih = Cons.IH[OF d]
  have r: "remove_all (k # ks) u = remove_all ks ?u" by (simp add: remove_all_def)
  have am: "amt ?u k' = (if k' = k then 0 else amt u k')" for k'
    using amt_remove[OF Cons.prems, of "fst k" "snd k" k'] by simp
  have "(\<Sum>k'\<in>set ks. amt ?u k') = (\<Sum>k'\<in>set ks - {k}. amt u k')"
    by (simp add: am sum.If_cases Diff_eq Int_commute)
  moreover have "(\<Sum>k'\<in>set (k # ks). amt u k') = amt u k + (\<Sum>k'\<in>set ks - {k}. amt u k')"
    by (simp add: sum.insert_remove)
  moreover have "total_amount ?u = total_amount u - amt u k"
    using total_remove[OF Cons.prems, of "fst k" "snd k"] by simp
  ultimately have t: "total_amount (remove_all (k # ks) u)
                      = total_amount u - (\<Sum>k'\<in>set (k # ks). amt u k')"
    using ih by (simp add: r)
  have ke: "fst ` set (remove_all (k # ks) u) = fst ` set u - set (k # ks)"
    using ih keys_remove[of u "fst k" "snd k"] by (auto simp: r)
  show ?case using ih t ke by (simp add: r)
qed


lemma total_update_fresh:
  "k \<notin> fst ` set u \<Longrightarrow> total_amount (AList.update k v u) = total_amount u + amount v"
  by (induction u) (auto simp: total_amount_def)

lemma add_all_props:
  "distinct (map fst ps) \<Longrightarrow> \<forall>i\<in>fst ` set ps. (h, int i) \<notin> fst ` set u \<Longrightarrow>
   total_amount (fold (\<lambda>(idx, output) u'. add_utxo u' h (int idx) output) ps u)
     = total_amount u + sum_list (map (amount \<circ> snd) ps)"
proof (induction ps arbitrary: u)
  case Nil
  then show ?case by simp
next
  case (Cons p ps)
  obtain i out where p: "p = (i, out)" by (cases p)
  let ?u = "add_utxo u h (int i) out"
  have fresh: "(h, int i) \<notin> fst ` set u" using Cons.prems p by simp
  have t: "total_amount ?u = total_amount u + amount out"
    using fresh by (simp add: add_utxo_def total_update_fresh)
  have d: "distinct (map fst ps)" using Cons.prems by simp
  have k: "fst ` set ?u = {(h, int i)} \<union> fst ` set u" by (simp add: add_utxo_def dom_update)
  have "\<forall>j\<in>fst ` set ps. (h, int j) \<notin> fst ` set ?u"
  proof
    fix j assume j: "j \<in> fst ` set ps"
    then have "j \<noteq> i" using Cons.prems(1) p by auto
    moreover have "(h, int j) \<notin> fst ` set u" using Cons.prems(2) j by auto
    ultimately show "(h, int j) \<notin> fst ` set ?u" by (simp add: k)
  qed
  from Cons.IH[OF d this] show ?case using t by (simp add: p)
qed

lemma removal_fold:
  "fold (\<lambda>inp u'. if prev_tx_hash inp \<noteq> zero_hash
                     then remove_utxo u' (prev_tx_hash inp) (prev_output_index inp) else u') ins u
   = remove_all (map (\<lambda>inp. (prev_tx_hash inp, prev_output_index inp))
                     (filter (\<lambda>inp. prev_tx_hash inp \<noteq> zero_hash) ins)) u"
  by (induction ins arbitrary: u) (simp_all add: remove_all_def)

lemma spent_amount_sum: "spent_amount u tx = (\<Sum>k\<in>set (spent_outpoints tx). amt u k)"
proof -
  have "distinct (spent_outpoints tx)" by (simp add: spent_outpoints_def)
  then show ?thesis
    by (simp add: spent_amount_def sum_list_distinct_conv_sum_set amt_def)
qed

lemma update_conserves_aux:
  assumes d: "distinct (map fst u)"
    and fresh: "\<forall>k\<in>set (created_outpoints tx). k \<in> fst ` set u \<longrightarrow> k \<in> set (spent_outpoints tx)"
  shows "total_amount (update_with_transaction u tx)
         = total_amount u - spent_amount u tx + output_amount tx"
proof -
  let ?ks = "map (\<lambda>inp. (prev_tx_hash inp, prev_output_index inp))
                 (filter (\<lambda>inp. prev_tx_hash inp \<noteq> zero_hash) (inputs tx))"
  let ?u1 = "remove_all ?ks u"
  have sk: "set (spent_outpoints tx) = set ?ks" by (simp add: spent_outpoints_def)
  note rp = remove_all_props[OF d, of ?ks]
  have t1: "total_amount ?u1 = total_amount u - spent_amount u tx"
    using rp by (simp add: spent_amount_sum sk)
  have k1: "fst ` set ?u1 = fst ` set u - set ?ks" using rp by simp
  have en: "map fst (enumerate 0 (outputs tx)) = [0..<length (outputs tx)]"
    by (simp add: map_fst_enumerate)
  have de: "distinct (map fst (enumerate 0 (outputs tx)))" by (simp add: en)
  have fr: "\<forall>i\<in>fst ` set (enumerate 0 (outputs tx)). (tx_hash tx, int i) \<notin> fst ` set ?u1"
  proof
    fix i assume "i \<in> fst ` set (enumerate 0 (outputs tx))"
    then have "i \<in> set (map fst (enumerate 0 (outputs tx)))" by (simp only: set_map)
    then have "i < length (outputs tx)" by (simp only: en) simp
    then have "(tx_hash tx, int i) \<in> set (created_outpoints tx)"
      by (simp add: created_outpoints_def)
    then have "(tx_hash tx, int i) \<in> fst ` set u \<longrightarrow> (tx_hash tx, int i) \<in> set ?ks"
      using fresh sk by blast
    then show "(tx_hash tx, int i) \<notin> fst ` set ?u1" by (simp only: k1) blast
  qed
  have "sum_list (map (amount \<circ> snd) (enumerate 0 (outputs tx))) = output_amount tx"
    by (simp add: output_amount_def map_snd_enumerate flip: map_map)
  then have "total_amount (update_with_transaction u tx) = total_amount ?u1 + output_amount tx"
    using add_all_props[OF de fr] by (simp add: update_with_transaction_def removal_fold Let_def)
  then show ?thesis by (simp add: t1)
qed

text \<open>
  C5 (counterexample).  A coinbase transaction is applied to the UTXO set that already
  holds its output, as happens when two blocks are mined for the same miner within one
  second: \<open>add_utxo\<close> overwrites the entry.  The sum afterwards is 50 coins, while the
  claimed value (previous sum, minus nothing spent, plus the outputs) is 100 coins.
\<close>

theorem reapplied_coinbase_overwrites:
  "total_amount (update_with_transaction (update_with_transaction [] example_coinbase)
                    example_coinbase) = 5000000000 \<and>
   total_amount (update_with_transaction [] example_coinbase)
     - spent_amount (update_with_transaction [] example_coinbase) example_coinbase
     + output_amount example_coinbase = 10000000000"
  by (simp add: update_with_transaction_def example_coinbase_def add_utxo_def remove_utxo_def
        total_amount_def spent_amount_def spent_outpoints_def output_amount_def zero_hash_def)

text \<open>
  C5 (amended).  When no output of \<open>tx\<close> is stored under a key that the UTXO set
  already holds and that \<open>tx\<close> does not itself spend, the sum of amounts after
  \<open>update_with_transaction\<close> is the previous sum, minus the amounts of the distinct
  outpoints that the non-coinbase inputs of \<open>tx\<close> name and that the set holds, plus
  the sum of the output amounts of \<open>tx\<close>.  (The keys of a dictionary are distinct.)
\<close>

theorem update_conserves_amounts:
  assumes "distinct (map fst u)"
    and "\<forall>k\<in>set (created_outpoints tx). k \<in> fst ` set u \<longrightarrow> k \<in> set (spent_outpoints tx)"
  shows "total_amount (update_with_transaction u tx)
         = total_amount u - spent_amount u tx + output_amount tx"
  using assms by (rule update_conserves_aux)

theorem update_conserves_amounts_witness:
  "total_amount (update_with_transaction (update_with_transaction [] example_coinbase)
                    example_payment) = 5000000000 \<and>
   total_amount (update_with_transaction [] example_coinbase) = 5000000000 \<and>
   spent_amount (update_with_transaction [] example_coinbase) example_payment = 5000000000 \<and>
   output_amount example_payment = 5000000000"
proof -
  let ?u = "update_with_transaction [] example_coinbase"
  have u: "?u = [((replicate 64 CHR ''c'', 0), \<lparr>amount = 5000000000, recipient_address = ''miner''\<rparr>)]"
    by (simp add: update_with_transaction_def example_coinbase_def add_utxo_def zero_hash_def)
  have d: "distinct (map fst ?u)" by (simp add: u)
  have f: "\<forall>k\<in>set (created_outpoints example_payment).
             k \<in> fst ` set ?u \<longrightarrow> k \<in> set (spent_outpoints example_payment)"
    by (simp add: u created_outpoints_def example_payment_def)
  have t: "total_amount ?u = 5000000000" by (simp add: u total_amount_def)
  have s: "spent_amount ?u example_payment = 5000000000"
    by (simp add: u spent_amount_def spent_outpoints_def example_payment_def zero_hash_def)
  have o: "output_amount example_payment = 5000000000"
    by (simp add: output_amount_def example_payment_def)
  show ?thesis using update_conserves_amounts[OF d f] t s o by simp
qed

section \<open>Verification of the mempool edges\<close>

lemma map_of_touch:
  "map_of (touch g k mp) k' = (if k' = k then map_option g (map_of mp k) else map_of mp k')"
  by (cases "map_of mp k") (simp_all add: touch_def update_conv')

lemma keys_touch: "fst ` set (touch g k mp) = fst ` set mp"
proof (cases "map_of mp k")
  case None
  then show ?thesis by (simp add: touch_def)
next
  case (Some t)
  then have "k \<in> fst ` set mp" by (metis map_of_eq_None_iff option.distinct(1))
  then show ?thesis using Some by (auto simp: touch_def dom_update)
qed

lemma distinct_touch: "distinct (map fst mp) \<Longrightarrow> distinct (map fst (touch g k mp))"
  by (cases "map_of mp k") (simp_all add: touch_def distinct_update)

lemma fold_touch:
  assumes idem: "\<And>t. g (g t) = g t"
  shows "map_of (fold (touch g) ks mp) k
           = (if k \<in> set ks then map_option g (map_of mp k) else map_of mp k)"
    and "fst ` set (fold (touch g) ks mp) = fst ` set mp"
    and "distinct (map fst mp) \<Longrightarrow> distinct (map fst (fold (touch g) ks mp))"
proof (induction ks arbitrary: mp)
  case Nil
  { case 1 show ?case by simp }
  { case 2 show ?case by simp }
  { case 3 then show ?case by simp }
next
  case (Cons a ks)
  { case 1
    show ?case
      by (cases "map_of mp k") (auto simp: Cons.IH(1) map_of_touch idem option.map_comp comp_def) }
  { case 2 show ?case by (simp add: Cons.IH(2) keys_touch) }
  { case 3 then show ?case by (simp add: Cons.IH(3) distinct_touch) }
qed

lemma idem_add_child: "add_child x (add_child x t) = add_child x t"
  by (simp add: add_child_def set_add_def)

lemma idem_discard_child: "discard_child x (discard_child x t) = discard_child x t"
  by (simp add: discard_child_def set_discard_def)

lemma idem_discard_parent: "discard_parent x (discard_parent x t) = discard_parent x t"
  by (simp add: discard_parent_def set_discard_def)


lemma map_of_add:
  "map_of (add_transaction mp tx) k =
     (if k \<in> set (parents tx)
      then map_option (add_child (tx_id tx)) (((map_of mp)(tx_id tx \<mapsto> tx)) k)
      else ((map_of mp)(tx_id tx \<mapsto> tx)) k)"
  unfolding add_transaction_def
  by (subst fold_touch(1)[OF idem_add_child]) (simp add: update_conv')

lemma keys_add: "fst ` set (add_transaction mp tx) = insert (tx_id tx) (fst ` set mp)"
  unfolding add_transaction_def
  by (subst fold_touch(2)[OF idem_add_child]) (simp add: dom_update)

lemma distinct_add: "distinct (map fst mp) \<Longrightarrow> distinct (map fst (add_transaction mp tx))"
  unfolding add_transaction_def
  by (intro fold_touch(3)[OF idem_add_child]) (simp add: distinct_update)

lemma children_add_child: "set (children (add_child x t)) = insert x (set (children t))"
  by (auto simp: add_child_def set_add_def)

lemma add_child_simps [simp]:
  "parents (add_child x t) = parents t" "tx_id (add_child x t) = tx_id t"
  by (simp_all add: add_child_def)

lemma dom_map_of: "dom (map_of mp) = fst ` set mp"
  by (rule dom_map_of_conv_image_fst)

lemma well_kept_add:
  assumes wk: "well_kept mp"
    and fresh: "tx_id tx \<notin> fst ` set mp"
    and nochild: "children tx = []"
    and unnamed: "\<forall>t\<in>set (get_all_transactions mp). tx_id tx \<notin> set (parents t)"
  shows "well_kept (add_transaction mp tx)"
proof -
  let ?x = "tx_id tx" and ?M = "map_of mp" and ?M' = "map_of (add_transaction mp tx)"
  have d: "distinct (map fst mp)" and inv: "well_kept_map ?M" using wk by (simp_all add: well_kept_def)
  have keyed: "\<And>k t. ?M k = Some t \<Longrightarrow> tx_id t = k"
    and cons: "\<And>kt t kc c. ?M kt = Some t \<Longrightarrow> ?M kc = Some c \<Longrightarrow>
                 (kc \<in> set (children t)) = (kt \<in> set (parents c))"
    and closed: "\<And>k t. ?M k = Some t \<Longrightarrow> set (children t) \<subseteq> dom ?M"
    using inv unfolding well_kept_map_def by blast+
  have xnone: "?M ?x = None" using fresh by (simp add: map_of_eq_None_iff)
  have named: "\<And>k t. ?M k = Some t \<Longrightarrow> ?x \<notin> set (parents t)"
  proof -
    fix k t assume "?M k = Some t"
    then have "(k, t) \<in> set mp" by (rule map_of_SomeD)
    then have "t \<in> set (get_all_transactions mp)" by (force simp: get_all_transactions_def)
    then show "?x \<notin> set (parents t)" using unnamed by blast
  qed
  have xchild: "\<And>k t. ?M k = Some t \<Longrightarrow> ?x \<notin> set (children t)"
  proof
    fix k t assume "?M k = Some t" and "?x \<in> set (children t)"
    then have "?x \<in> dom ?M" using closed by blast
    then show False using xnone by auto
  qed
  text \<open>every stored object after the call, with its origin\<close>
  have shape: "\<And>k t'. ?M' k = Some t' \<Longrightarrow>
      (\<exists>t0. (if k = ?x then t0 = tx else ?M k = Some t0) \<and> tx_id t' = tx_id t0 \<and>
            parents t' = parents t0 \<and>
            set (children t') = (if k \<in> set (parents tx) then insert ?x (set (children t0))
                                 else set (children t0)))"
    by (auto simp: map_of_add children_add_child split: if_splits)
  have dom': "dom ?M' = insert ?x (dom ?M)"
    by (simp add: dom_map_of keys_add)
  have "well_kept_map ?M'"
    unfolding well_kept_map_def
  proof (intro conjI allI impI)
    fix k t assume "?M' k = Some t"
    from shape[OF this] show "tx_id t = k" using keyed by (auto split: if_splits)
  next
    fix kt t kc c assume t: "?M' kt = Some t" and c: "?M' kc = Some c"
    from shape[OF t] obtain t0 where
      t0: "if kt = ?x then t0 = tx else ?M kt = Some t0"
      and tc: "set (children t) = (if kt \<in> set (parents tx) then insert ?x (set (children t0))
                                   else set (children t0))"
      by blast
    from shape[OF c] obtain c0 where
      c0: "if kc = ?x then c0 = tx else ?M kc = Some c0" and cp: "parents c = parents c0"
      by blast
    have nx: "?x \<notin> set (children t0)" using t0 xchild nochild by (auto split: if_splits)
    show "(kc \<in> set (children t)) = (kt \<in> set (parents c))"
    proof (cases "kc = ?x")
      case True
      then have "c0 = tx" using c0 by simp
      then show ?thesis using True nx by (simp add: tc cp)
    next
      case False
      then have c0M: "?M kc = Some c0" using c0 by simp
      show ?thesis
      proof (cases "kt = ?x")
        case True
        then have "t0 = tx" using t0 by simp
        then show ?thesis using True False named[OF c0M] nochild by (simp add: tc cp)
      next
        case kt: False
        then have "?M kt = Some t0" using t0 by simp
        from cons[OF this c0M] show ?thesis using False by (simp add: tc cp)
      qed
    qed
  next
    fix k t assume t: "?M' k = Some t"
    from shape[OF t] obtain t0 where
      t0: "if k = ?x then t0 = tx else ?M k = Some t0"
      and tc: "set (children t) = (if k \<in> set (parents tx) then insert ?x (set (children t0))
                                   else set (children t0))"
      by blast
    have "set (children t0) \<subseteq> dom ?M" using t0 closed nochild by (auto split: if_splits)
    then show "set (children t) \<subseteq> dom ?M'" by (auto simp: tc dom')
  qed
  then show ?thesis using distinct_add[OF d] by (simp add: well_kept_def)
qed


lemma discard_simps [simp]:
  "set (children (discard_child x t)) = set (children t) - {x}"
  "parents (discard_child x t) = parents t" "tx_id (discard_child x t) = tx_id t"
  "set (parents (discard_parent x t)) = set (parents t) - {x}"
  "children (discard_parent x t) = children t" "tx_id (discard_parent x t) = tx_id t"
  by (auto simp: discard_child_def discard_parent_def set_discard_def)

lemma remove_absent: "map_of mp k = None \<Longrightarrow> remove_transaction mp k = mp"
  by (simp add: remove_transaction_def)

lemma remove_present:
  fixes mp :: mempool and k :: string and tx :: MempoolTransaction and C1 :: "string set"
  defines "C1 \<equiv> set (children (case map_of (fold (touch (discard_child k)) (parents tx) mp) k of
                                    Some t \<Rightarrow> t | None \<Rightarrow> tx))"
  assumes "map_of mp k = Some tx"
  shows "map_of (remove_transaction mp k) k' =
       (if k' = k then None
        else if k' \<in> C1
             then map_option (discard_parent k)
                    (if k' \<in> set (parents tx) then map_option (discard_child k) (map_of mp k')
                     else map_of mp k')
             else (if k' \<in> set (parents tx) then map_option (discard_child k) (map_of mp k')
                   else map_of mp k'))"
    and "fst ` set (remove_transaction mp k) = fst ` set mp - {k}"
    and "distinct (map fst mp) \<Longrightarrow> distinct (map fst (remove_transaction mp k))"
proof -
  define m1 where "m1 = fold (touch (discard_child k)) (parents tx) mp"
  define tx1 where "tx1 = (case map_of m1 k of Some t \<Rightarrow> t | None \<Rightarrow> tx)"
  define m2 where "m2 = fold (touch (discard_parent k)) (children tx1) m1"
  have C1: "C1 = set (children tx1)" by (simp add: C1_def tx1_def m1_def)
  have r: "remove_transaction mp k = AList.delete k m2"
    using assms(2) by (simp add: remove_transaction_def Let_def m1_def tx1_def m2_def)
  have M1: "\<And>k'. map_of m1 k' = (if k' \<in> set (parents tx)
              then map_option (discard_child k) (map_of mp k') else map_of mp k')"
    unfolding m1_def by (rule fold_touch(1)[OF idem_discard_child])
  have M2: "\<And>k'. map_of m2 k' = (if k' \<in> set (children tx1)
              then map_option (discard_parent k) (map_of m1 k') else map_of m1 k')"
    unfolding m2_def by (rule fold_touch(1)[OF idem_discard_parent])
  have keys: "fst ` set m2 = fst ` set mp"
    unfolding m2_def m1_def
    by (simp only: fold_touch(2)[OF idem_discard_parent] fold_touch(2)[OF idem_discard_child])
  have dist: "distinct (map fst mp) \<Longrightarrow> distinct (map fst m2)"
    unfolding m2_def m1_def
    by (intro fold_touch(3)[OF idem_discard_parent] fold_touch(3)[OF idem_discard_child])
  have kk: "fst ` set (AList.delete k m2) = fst ` set m2 - {k}"
  proof -
    have "fst ` set (AList.delete k m2) = set (map fst (AList.delete k m2))" by simp
    also have "\<dots> = set (removeAll k (map fst m2))" by (simp only: delete_keys)
    also have "\<dots> = fst ` set m2 - {k}" by simp
    finally show ?thesis .
  qed
  show "map_of (remove_transaction mp k) k' =
       (if k' = k then None
        else if k' \<in> C1
             then map_option (discard_parent k)
                    (if k' \<in> set (parents tx) then map_option (discard_child k) (map_of mp k')
                     else map_of mp k')
             else (if k' \<in> set (parents tx) then map_option (discard_child k) (map_of mp k')
                   else map_of mp k'))"
    by (simp add: r delete_conv' M2 M1 C1)
  show "fst ` set (remove_transaction mp k) = fst ` set mp - {k}"
    by (simp only: r kk keys)
  show "distinct (map fst mp) \<Longrightarrow> distinct (map fst (remove_transaction mp k))"
    by (simp only: r) (intro distinct_delete dist)
qed

lemma well_kept_remove:
  assumes wk: "well_kept mp"
  shows "well_kept (remove_transaction mp k)"
proof (cases "map_of mp k")
  case None
  then show ?thesis using wk by (simp add: remove_absent)
next
  case (Some tx)
  let ?M = "map_of mp" and ?M' = "map_of (remove_transaction mp k)"
  have d: "distinct (map fst mp)" and inv: "well_kept_map ?M" using wk by (simp_all add: well_kept_def)
  have keyed: "\<And>k t. ?M k = Some t \<Longrightarrow> tx_id t = k"
    and cons: "\<And>kt t kc c. ?M kt = Some t \<Longrightarrow> ?M kc = Some c \<Longrightarrow>
                 (kc \<in> set (children t)) = (kt \<in> set (parents c))"
    and closed: "\<And>k t. ?M k = Some t \<Longrightarrow> set (children t) \<subseteq> dom ?M"
    using inv unfolding well_kept_map_def by blast+
  define C1 where "C1 = set (children (case map_of (fold (touch (discard_child k)) (parents tx) mp) k of
                                    Some t \<Rightarrow> t | None \<Rightarrow> tx))"
  have M': "\<And>k'. ?M' k' =
       (if k' = k then None
        else if k' \<in> C1
             then map_option (discard_parent k)
                    (if k' \<in> set (parents tx) then map_option (discard_child k) (?M k')
                     else ?M k')
             else (if k' \<in> set (parents tx) then map_option (discard_child k) (?M k')
                   else ?M k'))"
    unfolding C1_def by (rule remove_present(1)[OF Some])
  have keys: "fst ` set (remove_transaction mp k) = fst ` set mp - {k}"
    by (rule remove_present(2)[OF Some])
  have dist: "distinct (map fst (remove_transaction mp k))"
    using d by (rule remove_present(3)[OF Some])
  have shape: "k' \<noteq> k \<and> (\<exists>t0. ?M k' = Some t0 \<and> tx_id t' = tx_id t0 \<and>
            set (children t') = (if k' \<in> set (parents tx) then set (children t0) - {k}
                                 else set (children t0)) \<and>
            set (parents t') = (if k' \<in> C1 then set (parents t0) - {k}
                                else set (parents t0)))"
    if a: "?M' k' = Some t'" for k' t'
  proof -
    have nk: "k' \<noteq> k" using a by (cases "k' = k") (simp_all add: M')
    obtain t0 where t0: "?M k' = Some t0"
      using a nk by (cases "?M k'") (simp_all add: M' split: if_splits)
    show ?thesis
    proof (cases "k' \<in> C1"; cases "k' \<in> set (parents tx)")
      assume "k' \<in> C1" "k' \<in> set (parents tx)"
      then show ?thesis using a nk t0 by (auto simp add: M')
    next
      assume "k' \<in> C1" "k' \<notin> set (parents tx)"
      then show ?thesis using a nk t0 by (auto simp add: M')
    next
      assume "k' \<notin> C1" "k' \<in> set (parents tx)"
      then show ?thesis using a nk t0 by (auto simp add: M')
    next
      assume "k' \<notin> C1" "k' \<notin> set (parents tx)"
      then show ?thesis using a nk t0 by (auto simp add: M')
    qed
  qed
  have dom': "dom ?M' = dom ?M - {k}" by (simp add: dom_map_of keys)
  have "well_kept_map ?M'"
    unfolding well_kept_map_def
  proof (intro conjI allI impI)
    fix k' t assume "?M' k' = Some t"
    from shape[OF this] show "tx_id t = k'" using keyed by auto
  next
    fix kt t kc c assume t: "?M' kt = Some t" and c: "?M' kc = Some c"
    from shape[OF t] obtain t0 where kt: "kt \<noteq> k" and t0: "?M kt = Some t0"
      and tc: "set (children t) = (if kt \<in> set (parents tx) then set (children t0) - {k}
                                   else set (children t0))"
      by blast
    from shape[OF c] obtain c0 where kc: "kc \<noteq> k" and c0: "?M kc = Some c0"
      and cp: "set (parents c) = (if kc \<in> C1 then set (parents c0) - {k}
                                  else set (parents c0))"
      by blast
    have "(kc \<in> set (children t)) = (kc \<in> set (children t0))" using kc by (simp add: tc)
    also have "\<dots> = (kt \<in> set (parents c0))" by (rule cons[OF t0 c0])
    also have "\<dots> = (kt \<in> set (parents c))" using kt by (simp add: cp)
    finally show "(kc \<in> set (children t)) = (kt \<in> set (parents c))" .
  next
    fix k' t assume t: "?M' k' = Some t"
    from shape[OF t] obtain t0 where t0: "?M k' = Some t0"
      and tc: "set (children t) = (if k' \<in> set (parents tx) then set (children t0) - {k}
                                   else set (children t0))"
      by blast
    have sub: "set (children t) \<subseteq> dom ?M" using closed[OF t0] by (auto simp: tc split: if_splits)
    have "k \<notin> set (children t)"
    proof (cases "k' \<in> set (parents tx)")
      case True
      then show ?thesis by (simp add: tc)
    next
      case False
      then have "k \<notin> set (children t0)" using cons[OF t0 Some] by simp
      then show ?thesis using False by (simp add: tc)
    qed
    then show "set (children t) \<subseteq> dom ?M'" using sub by (auto simp: dom')
  qed
  then show ?thesis using dist by (simp add: well_kept_def)
qed

lemma well_kept_consistent: "well_kept mp \<Longrightarrow> consistent mp"
proof -
  assume wk: "well_kept mp"
  then have d: "distinct (map fst mp)" and inv: "well_kept_map (map_of mp)"
    by (simp_all add: well_kept_def)
  show ?thesis
    unfolding consistent_def get_all_transactions_def
  proof (intro ballI)
    fix t c assume "t \<in> set (map snd mp)" "c \<in> set (map snd mp)"
    then obtain kt kc where "(kt, t) \<in> set mp" "(kc, c) \<in> set mp" by auto
    then have m: "map_of mp kt = Some t" "map_of mp kc = Some c" using d by simp_all
    then have "tx_id t = kt" "tx_id c = kc" using inv unfolding well_kept_map_def by blast+
    moreover have "(kc \<in> set (children t)) = (kt \<in> set (parents c))"
      using inv m unfolding well_kept_map_def by blast
    ultimately show "(tx_id c \<in> set (children t)) = (tx_id t \<in> set (parents c))" by simp
  qed
qed

lemma well_kept_empty: "well_kept []"
  by (simp add: well_kept_def well_kept_map_def)

lemma well_kept_calls: "well_kept mp \<Longrightarrow> all_in_order mp cs \<Longrightarrow> well_kept (calls mp cs)"
proof (induction cs arbitrary: mp)
  case Nil
  then show ?case by (simp add: calls_def)
next
  case (Cons c cs)
  have "well_kept (call mp c)"
  proof (cases c)
    case (Add tx)
    then show ?thesis using Cons.prems
      by (simp add: well_kept_add list_all_iff)
  next
    case (Remove k)
    then show ?thesis using Cons.prems by (simp add: well_kept_remove)
  qed
  then have "well_kept (calls (call mp c) cs)" using Cons.prems by (intro Cons.IH) simp_all
  then show ?case by (simp add: calls_def)
qed

lemmas mempool_eval =
  calls_def add_transaction_def remove_transaction_def touch_def mtx_def consistent_def
  get_all_transactions_def add_child_def discard_child_def discard_parent_def set_add_def
  set_discard_def

text \<open>
  C10 (counterexample).  Three call sequences after which the edge sets are inconsistent:
  a child added before its parent (the parent never learns of the child); a transaction
  added again under an id that is already stored (the new object replaces the old one and
  its children); and a transaction added with a child already listed.
\<close>

theorem mempool_edges_inconsistent:
  "\<not> consistent (calls [] [Add (mtx ''C'' 80000 300 [''P'']), Add (mtx ''P'' 1000 400 [])]) \<and>
   \<not> consistent (calls [] [Add (mtx ''P'' 1000 400 []), Add (mtx ''C'' 80000 300 [''P'']),
                            Add (mtx ''P'' 2000 400 [])]) \<and>
   \<not> consistent (calls [] [Add (mtx ''A'' 1000 400 []),
                            Add ((mtx ''B'' 1000 400 [])\<lparr>children := [''A'']\<rparr>)])"
  by (simp add: mempool_eval)

text \<open>
  C10 (amended).  Start from the empty mempool and let every added transaction arrive in
  order: its id is not stored at that moment, its children set is empty, and no stored
  transaction names it as a parent (parents are added before their children).  Then after
  every sequence of \<open>add_transaction\<close> and \<open>remove_transaction\<close> calls the edge sets
  are consistent.  Removals need no condition.
\<close>

theorem in_order_calls_keep_edges_consistent:
  "all_in_order [] cs \<Longrightarrow> consistent (calls [] cs)"
  by (rule well_kept_consistent) (rule well_kept_calls[OF well_kept_empty])

theorem in_order_calls_keep_edges_consistent_witness:
  "all_in_order [] [Add (mtx ''P'' 1000 400 []), Add (mtx ''C'' 80000 300 [''P'']),
                    Add (mtx ''D'' 500 200 [''C'', ''P'']), Remove ''C''] \<and>
   consistent (calls [] [Add (mtx ''P'' 1000 400 []), Add (mtx ''C'' 80000 300 [''P'']),
                         Add (mtx ''D'' 500 200 [''C'', ''P'']), Remove ''C'']) \<and>
   map (\<lambda>t. (tx_id t, parents t, children t))
       (get_all_transactions
          (calls [] [Add (mtx ''P'' 1000 400 []), Add (mtx ''C'' 80000 300 [''P'']),
                     Add (mtx ''D'' 500 200 [''C'', ''P'']), Remove ''C'']))
     = [(''P'', [], [''D'']), (''D'', [''P''], [])]"
proof -
  let ?cs = "[Add (mtx ''P'' 1000 400 []), Add (mtx ''C'' 80000 300 [''P'']),
              Add (mtx ''D'' 500 200 [''C'', ''P'']), Remove ''C'']"
  have a: "all_in_order [] ?cs" by (simp add: mempool_eval)
  have b: "map (\<lambda>t. (tx_id t, parents t, children t)) (get_all_transactions (calls [] ?cs))
           = [(''P'', [], [''D'']), (''D'', [''P''], [])]"
    by (simp add: mempool_eval)
  show ?thesis using a b in_order_calls_keep_edges_consistent[OF a] by simp
qed

section \<open>Verification of blocks and mining\<close>

text \<open>The serialization of a block does not contain its stored hash.\<close>

lemma calculate_hash_hash_update [simp]:
  "calculate_hash L (b\<lparr>hash := h\<rparr>) = calculate_hash L b"
  by (simp add: calculate_hash_def block_serialize_def)




lemma make_block_result:
  assumes "make_block L i ts txs prev d = Inr b"
  shows "calculate_hash L b = Inr (hash b)" "nonce b = 0" "difficulty b = d" "index b = i"
    "transactions b = txs" "previous_hash b = prev" "block_timestamp b = ts"
  using assms
  by (auto simp: make_block_def Let_def calculate_hash_def block_serialize_def split: sum.splits)





text \<open>
  Which calls return: packing fails only outside the unsigned ranges, and the mining loop
  returns for every block that could be hashed when it was built, after at most
  10,000,001 hashes.
\<close>

lemma join_chunks_Inr_iff:
  "(\<exists>r. join_chunks cs = Inr r) \<longleftrightarrow> (\<forall>c\<in>set cs. \<exists>x. c = Inr x)"
  by (induction cs rule: join_chunks.induct) (auto split: sum.splits)

lemma pack_I_Inr_iff: "(\<exists>x. pack_I v = Inr x) \<longleftrightarrow> 0 \<le> v \<and> v < 4294967296"
  by (simp add: pack_I_def)

lemma pack_Q_Inr_iff: "(\<exists>x. pack_Q v = Inr x) \<longleftrightarrow> 0 \<le> v \<and> v < 18446744073709551616"
  by (simp add: pack_Q_def)

lemma calculate_hash_Inr_iff:
  "(\<exists>h. calculate_hash L b = Inr h) \<longleftrightarrow>
     0 \<le> index b \<and> index b < 4294967296 \<and> 0 \<le> block_timestamp b
   \<and> block_timestamp b < 18446744073709551616 \<and> 0 \<le> nonce b \<and> nonce b < 4294967296
   \<and> 0 \<le> difficulty b \<and> difficulty b < 4294967296"
proof -
  have "(\<exists>h. calculate_hash L b = Inr h) \<longleftrightarrow> (\<exists>r. block_serialize b = Inr r)"
    by (auto simp: calculate_hash_def split: sum.splits)
  also have "\<dots> \<longleftrightarrow> (\<exists>x. pack_I (index b) = Inr x) \<and> (\<exists>x. pack_Q (block_timestamp b) = Inr x)
      \<and> (\<exists>x. pack_I (nonce b) = Inr x) \<and> (\<exists>x. pack_I (difficulty b) = Inr x)"
    unfolding block_serialize_def join_chunks_Inr_iff by auto
  finally show ?thesis unfolding pack_I_Inr_iff pack_Q_Inr_iff by blast
qed

lemma mine_loop_returns:
  assumes "calculate_hash L b = Inr h0" and "0 \<le> a" and "a \<le> 10000000"
  shows "\<exists>b'. mine_loop L b target a = Inr b'"
  using assms
proof (induction L b target a arbitrary: h0 rule: mine_loop.induct)
  case (1 L b target attempts)
  let ?b1 = "b\<lparr>nonce := attempts\<rparr>"
  from "1.prems" calculate_hash_Inr_iff[of L b] calculate_hash_Inr_iff[of L ?b1]
  obtain h where h: "calculate_hash L ?b1 = Inr h" by auto
  let ?b2 = "?b1\<lparr>hash := h\<rparr>"
  show ?case
  proof (cases "startswith h target \<or> attempts + 1 > 10000000")
    case True
    with h show ?thesis by (subst mine_loop.simps) (auto simp: Let_def)
  next
    case False
    then have nh: "\<not> startswith h target" and na: "\<not> attempts + 1 > 10000000" by simp_all
    from h have h2: "calculate_hash L ?b2 = Inr h" by simp
    from "1.prems" na have "0 \<le> attempts + 1" "attempts + 1 \<le> 10000000" by simp_all
    from "1.IH"[OF refl h refl nh na h2 this]
    obtain b' where "mine_loop L ?b2 target (attempts + 1) = Inr b'" by blast
    with h nh na show ?thesis by (subst mine_loop.simps) (simp add: Let_def)
  qed
qed


lemma hash256_constant: "hash256 (constant_hashlib d) x = d"
  by (simp add: hash256_def sha256_def constant_hashlib_def)

lemma calculate_hash_constant:
  assumes "calculate_hash (constant_hashlib d) b = Inr h0" and "0 \<le> n" and "n < 4294967296"
  shows "calculate_hash (constant_hashlib d) (b\<lparr>nonce := n\<rparr>) = Inr (hex d)"
proof -
  from assms calculate_hash_Inr_iff[of "constant_hashlib d" b]
    calculate_hash_Inr_iff[of "constant_hashlib d" "b\<lparr>nonce := n\<rparr>"]
  obtain h where "calculate_hash (constant_hashlib d) (b\<lparr>nonce := n\<rparr>) = Inr h" by auto
  then show ?thesis by (auto simp: calculate_hash_def hash256_constant split: sum.splits)
qed















lemma create_coinbase_transaction_returns:
  assumes "0 \<le> now" "now < 4294967296" "0 \<le> reward" "reward < 18446744073709551616"
  shows "\<exists>tx. create_coinbase_transaction L miner h reward now = Inr tx"
  using assms
  by (simp add: create_coinbase_transaction_def make_transaction_def tx_calculate_hash_def
      serialize_for_hashing_def pack_I_def pack_Q_def)

lemma make_block_returns:
  assumes "0 \<le> i" "i < 4294967296" "0 \<le> ts" "ts < 18446744073709551616"
    "0 \<le> d" "d < 4294967296"
  shows "\<exists>b. make_block L i ts txs prev d = Inr b"
proof -
  let ?b = "\<lparr>index = i, block_timestamp = ts, transactions = txs, previous_hash = prev,
             nonce = 0, hash = [], difficulty = d\<rparr>"
  from assms calculate_hash_Inr_iff[of L ?b] obtain h where "calculate_hash L ?b = Inr h"
    by auto
  then show ?thesis by (simp add: make_block_def)
qed

lemma mine_pending_transactions_returns:
  assumes "chain bc \<noteq> []" "int (length (chain bc)) < 4294967296"
    "0 \<le> t_tx" "t_tx < 4294967296" "0 \<le> t_block" "t_block < 18446744073709551616"
    "0 \<le> mining_reward bc" "mining_reward bc < 18446744073709551616"
    "0 \<le> chain_difficulty bc" "chain_difficulty bc < 4294967296"
  shows "\<exists>blk bc1. mine_pending_transactions L bc miner t_tx t_block = Inr (blk, bc1)"
proof -
  from assms obtain cb where
    cb: "create_coinbase_transaction L miner (int (length (chain bc))) (mining_reward bc) t_tx = Inr cb"
    using create_coinbase_transaction_returns by blast
  from assms have "\<exists>nb. make_block L (int (length (chain bc))) t_block
      ([cb] @ pending_transactions bc) (hash (last (chain bc))) (chain_difficulty bc) = Inr nb"
    by (intro make_block_returns) simp_all
  then obtain nb where
    nb: "make_block L (int (length (chain bc))) t_block ([cb] @ pending_transactions bc)
           (hash (last (chain bc))) (chain_difficulty bc) = Inr nb"
    by blast
  from make_block_result(1)[OF nb] mine_loop_returns[of L nb "hash nb" 0]
  obtain blk where "mine_block L nb None = Inr blk"
    by (auto simp: mine_block_def)
  with cb nb assms(1) show ?thesis
    by (simp add: mine_pending_transactions_def)
qed






end
